theory Spec2Isabelle
  imports Complex_Main "HOL-Library.Word"
begin

section \<open>JavaScript values used by the application\<close>

subsection \<open>Strings\<close>

text \<open>
  A JavaScript string is a sequence of UTF-16 code units; \<open>length\<close> counts code units, as
  \<^verbatim>\<open>String.prototype.length\<close> and the \<^verbatim>\<open>maxLength\<close> attribute of an input element do.
  \<open>js\<close> writes an ASCII literal.
\<close>

type_synonym code_unit = "16 word"
type_synonym jsstring = "code_unit list"

definition js :: "string \<Rightarrow> jsstring" where
  "js s = map of_char s"

text \<open>
  \<^verbatim>\<open>String.prototype.trim\<close> removes leading and trailing white space and line terminators:
  TAB, VT, FF, SP, NBSP, ZWNBSP and the code points of category Zs, and LF, CR, LS, PS.
  All of them are single code units.
\<close>

definition WhiteSpace :: "code_unit \<Rightarrow> bool" where
  "WhiteSpace c \<longleftrightarrow>
     c = 0x9 \<or> c = 0xB \<or> c = 0xC \<or> c = 0x20 \<or> c = 0xA0 \<or> c = 0xFEFF \<or>
     c = 0x1680 \<or> (0x2000 \<le> c \<and> c \<le> 0x200A) \<or> c = 0x202F \<or> c = 0x205F \<or> c = 0x3000"

definition LineTerminator :: "code_unit \<Rightarrow> bool" where
  "LineTerminator c \<longleftrightarrow> c = 0xA \<or> c = 0xD \<or> c = 0x2028 \<or> c = 0x2029"

definition trimmable :: "code_unit \<Rightarrow> bool" where
  "trimmable c \<longleftrightarrow> WhiteSpace c \<or> LineTerminator c"

definition trim :: "jsstring \<Rightarrow> jsstring" where
  "trim s = rev (dropWhile trimmable (rev (dropWhile trimmable s)))"

subsection \<open>Numbers\<close>

text \<open>
  A finite Number is a double, that is a rational number. The sum of two finite doubles is
  their exact sum rounded to the nearest double, ties to the even significand (a sum of
  magnitude \<open>2^1024\<close> or more, which is \<^verbatim>\<open>Infinity\<close>, is not modelled). The doubles
  around \<open>x\<close> are the multiples of \<open>ulp x\<close>: \<open>2 ^ (binade x - 52)\<close>, where
  \<open>2 ^ binade x \<le> \<bar>x\<bar> < 2 ^ (binade x + 1)\<close>, and \<open>2 ^ - 1074\<close> for the subnormal ones.
\<close>

type_synonym number = rat

function ilog2 :: "int \<Rightarrow> nat" where
  "ilog2 n = (if n < 2 then 0 else Suc (ilog2 (n div 2)))"
  by pat_completeness auto
termination
  by (relation "measure nat") auto

declare ilog2.simps [simp del]

definition binade :: "rat \<Rightarrow> int" where
  "binade x =
     (let a = \<bar>x\<bar>
      in if 1 \<le> a then int (ilog2 \<lfloor>a\<rfloor>) else - int (ilog2 (\<lceil>1 / a\<rceil> - 1)) - 1)"

definition pow2 :: "int \<Rightarrow> rat" where
  "pow2 k = (if 0 \<le> k then 2 ^ nat k else 1 / 2 ^ nat (- k))"

definition ulp :: "rat \<Rightarrow> rat" where
  "ulp x = pow2 (max (binade x) (- 1022) - 52)"

definition roundTiesToEven :: "rat \<Rightarrow> rat \<Rightarrow> rat" where
  "roundTiesToEven u x =
     (let q = x / u; n = \<lfloor>q\<rfloor>; d = q - of_int n
      in of_int (if d < 1 / 2 then n else if 1 / 2 < d then n + 1
                 else if even n then n else n + 1) * u)"

definition round_double :: "rat \<Rightarrow> number" where
  "round_double x = (if x = 0 then 0 else roundTiesToEven (ulp x) x)"

definition Number_add :: "number \<Rightarrow> number \<Rightarrow> number" where
  "Number_add x y = round_double (x + y)"

subsection \<open>The values of JSON texts\<close>

text \<open>
  What \<^verbatim>\<open>JSON.parse\<close> returns and \<^verbatim>\<open>JSON.stringify\<close> is given: \<^verbatim>\<open>null\<close>, a boolean, a
  number, a string, an array, or an object with its properties in creation order, each
  name once.
\<close>

datatype json =
  JNull
| JBoolean bool
| JNumber number
| JString jsstring
| JArray "json list"
| JObject "(jsstring \<times> json) list"

text \<open>
  \<^verbatim>\<open>ToBoolean\<close> of the value of a property; \<open>None\<close> is \<^verbatim>\<open>undefined\<close>, the value of a
  property that is not there.
\<close>

definition truthy :: "json option \<Rightarrow> bool" where
  "truthy v =
     (case v of
        None \<Rightarrow> False
      | Some JNull \<Rightarrow> False
      | Some (JBoolean b) \<Rightarrow> b
      | Some (JNumber x) \<Rightarrow> x \<noteq> 0
      | Some (JString s) \<Rightarrow> s \<noteq> []
      | Some (JArray xs) \<Rightarrow> True
      | Some (JObject ps) \<Rightarrow> True)"

section \<open>The data model\<close>

text \<open>
  A task record, as \<^verbatim>\<open>addTodo\<close> builds it. The fields \<^verbatim>\<open>id\<close> and \<^verbatim>\<open>text\<close> are primed.
\<close>

record todo =
  id' :: number
  text' :: jsstring
  completed :: bool
  createdAt :: jsstring

text \<open>
  The record as a value: the object literal of \<^verbatim>\<open>addTodo\<close>, with its properties in the
  order in which the literal lists them. The spreads of \<^verbatim>\<open>toggleTodo\<close> and \<^verbatim>\<open>editTodo\<close> keep
  that order. A collection is an array of such objects.
\<close>

definition object_of :: "todo \<Rightarrow> json" where
  "object_of t =
     JObject [(js ''id'', JNumber (id' t)), (js ''text'', JString (text' t)),
              (js ''completed'', JBoolean (completed t)),
              (js ''createdAt'', JString (createdAt t))]"

definition array_of :: "todo list \<Rightarrow> json" where
  "array_of ts = JArray (map object_of ts)"

text \<open>
  Back from a value: \<open>record_of\<close> reads the four properties, and a value is a collection
  of task records when building the array of the records read from its entries gives the
  value again.
\<close>

definition record_of :: "json \<Rightarrow> todo" where
  "record_of v =
     (let ps = (case v of JObject ps \<Rightarrow> ps | _ \<Rightarrow> [])
      in \<lparr>id' = (case map_of ps (js ''id'') of Some (JNumber x) \<Rightarrow> x | _ \<Rightarrow> 0),
          text' = (case map_of ps (js ''text'') of Some (JString s) \<Rightarrow> s | _ \<Rightarrow> []),
          completed = (case map_of ps (js ''completed'') of Some (JBoolean b) \<Rightarrow> b | _ \<Rightarrow> False),
          createdAt = (case map_of ps (js ''createdAt'') of Some (JString s) \<Rightarrow> s | _ \<Rightarrow> [])\<rparr>)"

definition todos_of :: "json \<Rightarrow> todo list option" where
  "todos_of v =
     (case v of
        JArray xs \<Rightarrow>
          (let ts = map record_of xs in if map object_of ts = xs then Some ts else None)
      | _ \<Rightarrow> None)"

text \<open>
  What \<^verbatim>\<open>addTodo\<close> reads from its environment: \<^verbatim>\<open>Date.now()\<close>, \<^verbatim>\<open>Math.random()\<close> and
  \<^verbatim>\<open>new Date().toISOString()\<close>.
\<close>

record env =
  Date_now :: int
  Math_random :: number
  toISOString :: jsstring

text \<open>
  \<^verbatim>\<open>JSON.parse\<close> and \<^verbatim>\<open>JSON.stringify\<close> belong to the platform, not to the application:
  they are parameters of the model. \<^verbatim>\<open>JSON.parse\<close> throws a \<^verbatim>\<open>SyntaxError\<close> on a text
  that is not JSON, and returns the value of a text that is, whatever its shape. A
  \<^verbatim>\<open>TypeError\<close> is what reading a property of \<^verbatim>\<open>null\<close> throws, or calling what is no
  function.
\<close>

datatype error = SyntaxError | TypeError

record platform =
  JSON_parse :: "jsstring \<Rightarrow> error + json"
  JSON_stringify :: "json \<Rightarrow> jsstring"

text \<open>
  The state of \<^verbatim>\<open>App\<close> and of what it acts on: the \<^verbatim>\<open>todos\<close> state variable, the local
  store, the calls of \<^verbatim>\<open>console.error\<close> (newest first) and the number of calls of
  \<^verbatim>\<open>localStorage.setItem\<close>. The state variable starts as \<^verbatim>\<open>[]\<close> and every operation of
  \<^verbatim>\<open>App\<close> builds a collection of task records from one; only the loading effect can put
  another value there (\<open>App_mount\<close> below).
\<close>

record app =
  todos :: "todo list"
  localStorage :: "jsstring \<rightharpoonup> jsstring"
  console_error :: "(jsstring \<times> error) list"
  setItem_calls :: nat

section \<open>The application\<close>

subsection \<open>Persistence\<close>

text \<open>
  The second effect of \<^verbatim>\<open>App\<close> writes the collection under the key after every render in
  which \<^verbatim>\<open>todos\<close> changed.
\<close>

definition saveTodos :: "platform \<Rightarrow> app \<Rightarrow> app" where
  "saveTodos P s =
     s\<lparr>localStorage :=
         (localStorage s)(js ''todoApp_todos'' \<mapsto> JSON_stringify P (array_of (todos s))),
       setItem_calls := Suc (setItem_calls s)\<rparr>"

text \<open>
  \<^verbatim>\<open>setTodos(updater)\<close>: every updater of the source builds a new array (a spread,
  \<^verbatim>\<open>map\<close> or \<^verbatim>\<open>filter\<close>), so the state changes identity, \<^verbatim>\<open>App\<close> renders again and the
  saving effect runs.
\<close>

definition setTodos :: "platform \<Rightarrow> (todo list \<Rightarrow> todo list) \<Rightarrow> app \<Rightarrow> app" where
  "setTodos P updater s = saveTodos P (s\<lparr>todos := updater (todos s)\<rparr>)"

text \<open>
  The first effect of \<^verbatim>\<open>App\<close>, run once on mount. It returns the state update it queued
  with \<^verbatim>\<open>setTodos(parsedTodos)\<close>, if any: the parsed value as it is, the source checks
  nothing of it. An empty string is falsy, so the guard \<^verbatim>\<open>if (savedTodos)\<close> skips it as it
  skips \<^verbatim>\<open>null\<close>.
\<close>

definition try_catch :: "error + 'a \<Rightarrow> (error \<Rightarrow> error + 'a) \<Rightarrow> error + 'a" where
  "try_catch body handler = (case body of Inl e \<Rightarrow> handler e | Inr v \<Rightarrow> Inr v)"

definition loadTodos :: "platform \<Rightarrow> app \<Rightarrow> error + (json option \<times> app)" where
  "loadTodos P s =
     (case localStorage s (js ''todoApp_todos'') of
        None \<Rightarrow> Inr (None, s)
      | Some savedTodos \<Rightarrow>
          if savedTodos \<noteq> [] then
            try_catch
              (case JSON_parse P savedTodos of
                 Inl e \<Rightarrow> Inl e
               | Inr parsedTodos \<Rightarrow> Inr (Some parsedTodos, s))
              (\<lambda>error. Inr (None,
                 s\<lparr>console_error :=
                     (js ''Error loading todos from localStorage:'', error) # console_error s\<rparr>))
          else Inr (None, s))"

text \<open>
  The body of \<^verbatim>\<open>App\<close> computes its statistics from the state variable at every render:
  \<^verbatim>\<open>todos.length\<close> and \<^verbatim>\<open>todos.filter(todo => todo.completed).length\<close>. Reading
  \<^verbatim>\<open>length\<close> of \<^verbatim>\<open>null\<close> throws; a value that is no array has no method \<^verbatim>\<open>filter\<close>, and
  calling it throws; in an array, reading \<^verbatim>\<open>completed\<close> of an entry \<^verbatim>\<open>null\<close> throws. Of
  another entry only an object can have that property. The result is the total, the
  completed and the pending count.
\<close>

definition App_body :: "json \<Rightarrow> error + int \<times> int \<times> int" where
  "App_body v =
     (case v of
        JArray xs \<Rightarrow>
          if JNull \<in> set xs then Inl TypeError
          else
            (let total = int (length xs);
                 ticked = int (length (filter
                   (\<lambda>todo. truthy (case todo of JObject ps \<Rightarrow> map_of ps (js ''completed'')
                                             | _ \<Rightarrow> None)) xs))
             in Inr (total, ticked, total - ticked))
      | _ \<Rightarrow> Inl TypeError)"

text \<open>
  Mounting \<^verbatim>\<open>App\<close>: the state starts as \<^verbatim>\<open>[]\<close>; both effects run with that state, the
  loading one first; then the queued update, if any, is applied, \<^verbatim>\<open>App\<close> renders with the
  parsed value, and the saving effect runs again for the new state. An error thrown by the
  body of \<^verbatim>\<open>App\<close> in that render is caught nowhere: mounting raises it (\<open>Inl\<close>), after the
  first run of the saving effect has written \<^verbatim>\<open>[]\<close> to the store.

  When the parsed value is a collection of task records, the application goes on from the
  state \<open>Mounted\<close>. Any other array that the body of \<^verbatim>\<open>App\<close> accepts is held as it is:
  \<open>Foreign\<close>, with the value, the store, the calls of \<^verbatim>\<open>console.error\<close> and the number
  of calls of \<^verbatim>\<open>setItem\<close>. How \<^verbatim>\<open>TodoList\<close> and \<^verbatim>\<open>TodoItem\<close> render entries that are
  no task records, and the operations on such a state, are not modelled.
\<close>

datatype mounted =
  Mounted app
| Foreign json "jsstring \<rightharpoonup> jsstring" "(jsstring \<times> error) list" nat

definition App_mount :: "platform \<Rightarrow> (jsstring \<rightharpoonup> jsstring) \<Rightarrow> error + mounted" where
  "App_mount P storage =
     (case loadTodos P \<lparr>todos = [], localStorage = storage, console_error = [],
                        setItem_calls = 0\<rparr> of
        Inl e \<Rightarrow> Inl e
      | Inr (update, s0) \<Rightarrow>
          (let s = saveTodos P s0
           in case update of
                None \<Rightarrow> Inr (Mounted s)
              | Some parsedTodos \<Rightarrow>
                  (case App_body parsedTodos of
                     Inl e \<Rightarrow> Inl e
                   | Inr stats \<Rightarrow>
                       (case todos_of parsedTodos of
                          Some ts \<Rightarrow> Inr (Mounted (saveTodos P (s\<lparr>todos := ts\<rparr>)))
                        | None \<Rightarrow>
                            Inr (Foreign parsedTodos
                                   ((localStorage s)(js ''todoApp_todos'' \<mapsto>
                                      JSON_stringify P parsedTodos))
                                   (console_error s) (Suc (setItem_calls s)))))))"

text \<open>
  What a start of the application loads: the value that \<^verbatim>\<open>App\<close> holds in \<^verbatim>\<open>todos\<close> once
  mounted, and what it reported to \<^verbatim>\<open>console.error\<close>; \<open>Inl\<close> if the body of \<^verbatim>\<open>App\<close>
  raised on the loaded value.
\<close>

definition load ::
  "platform \<Rightarrow> (jsstring \<rightharpoonup> jsstring) \<Rightarrow> error + json \<times> (jsstring \<times> error) list" where
  "load P storage =
     (case App_mount P storage of
        Inl e \<Rightarrow> Inl e
      | Inr (Mounted s) \<Rightarrow> Inr (array_of (todos s), console_error s)
      | Inr (Foreign v stored reported n) \<Rightarrow> Inr (v, reported))"

subsection \<open>The operations of \<^verbatim>\<open>App\<close>\<close>

definition newTodo :: "env \<Rightarrow> jsstring \<Rightarrow> todo" where
  "newTodo e txt =
     \<lparr>id' = Number_add (of_int (Date_now e)) (Math_random e),
      text' = txt,
      completed = False,
      createdAt = toISOString e\<rparr>"

definition addTodo :: "platform \<Rightarrow> env \<Rightarrow> jsstring \<Rightarrow> app \<Rightarrow> app" where
  "addTodo P e txt = setTodos P (\<lambda>prevTodos. newTodo e txt # prevTodos)"

definition toggleTodo :: "platform \<Rightarrow> number \<Rightarrow> app \<Rightarrow> app" where
  "toggleTodo P i =
     setTodos P (\<lambda>prevTodos.
       map (\<lambda>todo. if id' todo = i then todo\<lparr>completed := \<not> completed todo\<rparr> else todo)
         prevTodos)"

definition deleteTodo :: "platform \<Rightarrow> number \<Rightarrow> app \<Rightarrow> app" where
  "deleteTodo P i = setTodos P (\<lambda>prevTodos. filter (\<lambda>todo. id' todo \<noteq> i) prevTodos)"

definition editTodo :: "platform \<Rightarrow> number \<Rightarrow> jsstring \<Rightarrow> app \<Rightarrow> app" where
  "editTodo P i newText =
     setTodos P (\<lambda>prevTodos.
       map (\<lambda>todo. if id' todo = i then todo\<lparr>text' := newText\<rparr> else todo) prevTodos)"

definition totalTodos :: "app \<Rightarrow> int" where
  "totalTodos s = int (length (todos s))"

definition completedTodos :: "app \<Rightarrow> int" where
  "completedTodos s = int (length (filter (\<lambda>todo. completed todo) (todos s)))"

definition pendingTodos :: "app \<Rightarrow> int" where
  "pendingTodos s = totalTodos s - completedTodos s"

subsection \<open>The components that call them\<close>

text \<open>
  \<^verbatim>\<open>AddTodo.handleSubmit\<close>, on the component's \<^verbatim>\<open>inputValue\<close>; a non-empty string is truthy.
\<close>

definition handleSubmit :: "platform \<Rightarrow> env \<Rightarrow> jsstring \<times> app \<Rightarrow> jsstring \<times> app" where
  "handleSubmit P e = (\<lambda>(inputValue, s).
     let trimmedValue = trim inputValue
     in if trimmedValue \<noteq> [] then ([], addTodo P e trimmedValue s) else (inputValue, s))"

text \<open>\<^verbatim>\<open>TodoItem\<close> holds \<^verbatim>\<open>isEditing\<close> and \<^verbatim>\<open>editValue\<close>; \<^verbatim>\<open>handleEdit\<close> reads its \<^verbatim>\<open>todo\<close> prop.\<close>

record item =
  isEditing :: bool
  editValue :: jsstring

definition handleEdit :: "platform \<Rightarrow> todo \<Rightarrow> item \<times> app \<Rightarrow> item \<times> app" where
  "handleEdit P todo = (\<lambda>(it, s).
     let (it1, s1) =
       (if isEditing it then
          (let trimmedValue = trim (editValue it)
           in if trimmedValue \<noteq> [] \<and> trimmedValue \<noteq> text' todo
              then (it, editTodo P (id' todo) trimmedValue s)
              else (it\<lparr>editValue := text' todo\<rparr>, s))
        else (it, s))
     in (it1\<lparr>isEditing := \<not> isEditing it\<rparr>, s1))"

text \<open>\<^verbatim>\<open>TodoList\<close>: the \<^verbatim>\<open>switch\<close> on the filter, with its \<^verbatim>\<open>default\<close> branch.\<close>

definition filteredTodos :: "jsstring \<Rightarrow> todo list \<Rightarrow> todo list" where
  "filteredTodos flt ts =
     filter (\<lambda>todo. if flt = js ''completed'' then completed todo
                     else if flt = js ''pending'' then \<not> completed todo
                     else True) ts"

section \<open>A reference platform\<close>

text \<open>
  A concrete \<^verbatim>\<open>JSON.stringify\<close> and \<^verbatim>\<open>JSON.parse\<close>, after ECMA-262. The
  theorems about the application hold for every platform; this one shows that what they
  ask of a platform can be met, and it is the platform at which the sample runs are
  evaluated.
\<close>

text \<open>
  \<^verbatim>\<open>QuoteJSONString\<close>: the short escapes, \<^verbatim>\<open>\uXXXX\<close> for the other control characters
  and for a surrogate that is not half of a pair, every other code unit as it is.
\<close>

definition hexdigit :: "int \<Rightarrow> code_unit" where
  "hexdigit d = (if d < 10 then 0x30 + of_int d else 0x57 + of_int d)"

definition UnicodeEscape :: "code_unit \<Rightarrow> jsstring" where
  "UnicodeEscape c =
     [0x5C, 0x75, hexdigit (uint c div 4096), hexdigit (uint c div 256 mod 16),
      hexdigit (uint c div 16 mod 16), hexdigit (uint c mod 16)]"

definition leading_surrogate :: "code_unit \<Rightarrow> bool" where
  "leading_surrogate c \<longleftrightarrow> 0xD800 \<le> c \<and> c \<le> 0xDBFF"

definition trailing_surrogate :: "code_unit \<Rightarrow> bool" where
  "trailing_surrogate c \<longleftrightarrow> 0xDC00 \<le> c \<and> c \<le> 0xDFFF"

fun quote_units :: "jsstring \<Rightarrow> jsstring" where
  "quote_units [] = []"
| "quote_units (c # cs) =
     (if c = 0x8 then [0x5C, 0x62] @ quote_units cs
      else if c = 0x9 then [0x5C, 0x74] @ quote_units cs
      else if c = 0xA then [0x5C, 0x6E] @ quote_units cs
      else if c = 0xC then [0x5C, 0x66] @ quote_units cs
      else if c = 0xD then [0x5C, 0x72] @ quote_units cs
      else if c = 0x22 then [0x5C, 0x22] @ quote_units cs
      else if c = 0x5C then [0x5C, 0x5C] @ quote_units cs
      else if c < 0x20 then UnicodeEscape c @ quote_units cs
      else if leading_surrogate c then
        (case cs of
           [] \<Rightarrow> UnicodeEscape c
         | d # ds \<Rightarrow> if trailing_surrogate d then c # d # quote_units ds
                     else UnicodeEscape c @ quote_units cs)
      else if trailing_surrogate c then UnicodeEscape c @ quote_units cs
      else c # quote_units cs)"

definition QuoteJSONString :: "jsstring \<Rightarrow> jsstring" where
  "QuoteJSONString s = 0x22 # quote_units s @ [0x22]"

text \<open>
  A Number is printed by its exact decimal expansion (at most 1074 fractional digits for a
  double). \<^verbatim>\<open>Number::toString\<close> prints the shortest decimal that reads back as the same
  double; both read back as the same double.
\<close>

function decimal :: "int \<Rightarrow> jsstring" where
  "decimal n = (if n < 10 then [0x30 + of_int n]
                else decimal (n div 10) @ [0x30 + of_int (n mod 10)])"
  by pat_completeness auto
termination
  by (relation "measure nat") auto

declare decimal.simps [simp del]

fun fraction :: "nat \<Rightarrow> rat \<Rightarrow> jsstring" where
  "fraction 0 r = []"
| "fraction (Suc k) r =
     (if r = 0 then []
      else (let d = \<lfloor>r * 10\<rfloor> in (0x30 + of_int d) # fraction k (r * 10 - of_int d)))"

definition unsigned_decimal :: "rat \<Rightarrow> jsstring" where
  "unsigned_decimal x =
     (let n = \<lfloor>x\<rfloor>; r = x - of_int n
      in decimal n @ (if r = 0 then [] else 0x2E # fraction 1100 r))"

definition Number_toString :: "number \<Rightarrow> jsstring" where
  "Number_toString x = (if x < 0 then 0x2D # unsigned_decimal (- x) else unsigned_decimal x)"

text \<open>
  \<^verbatim>\<open>SerializeJSONProperty\<close>, without indentation: the elements of an array and the
  properties of an object, in their order, separated by commas.
\<close>

fun join :: "jsstring list \<Rightarrow> jsstring" where
  "join [] = []"
| "join [x] = x"
| "join (x # y # ys) = x @ js '','' @ join (y # ys)"

fun SerializeJSONProperty :: "json \<Rightarrow> jsstring" where
  "SerializeJSONProperty JNull = js ''null''"
| "SerializeJSONProperty (JBoolean b) = (if b then js ''true'' else js ''false'')"
| "SerializeJSONProperty (JNumber x) = Number_toString x"
| "SerializeJSONProperty (JString s) = QuoteJSONString s"
| "SerializeJSONProperty (JArray xs) =
     js ''['' @ join (map SerializeJSONProperty xs) @ js '']''"
| "SerializeJSONProperty (JObject ps) =
     js ''{'' @
     join (map (\<lambda>p. QuoteJSONString (fst p) @ js '':'' @ SerializeJSONProperty (snd p)) ps) @
     js ''}''"

text \<open>
  The reader accepts the compact texts that the serializer writes, with any JSON string
  escape, and throws on every other text: it skips no white space and reads no exponent.
  It reads a number exactly, where \<^verbatim>\<open>JSON.parse\<close> rounds to the nearest double; the
  decimal expansion of a double is read as that double by both.
\<close>

definition expect :: "jsstring \<Rightarrow> jsstring \<Rightarrow> jsstring option" where
  "expect p s = (if take (length p) s = p then Some (drop (length p) s) else None)"

definition hexval :: "code_unit \<Rightarrow> int option" where
  "hexval c =
     (if 0x30 \<le> c \<and> c \<le> 0x39 then Some (uint c - 0x30)
      else if 0x61 \<le> c \<and> c \<le> 0x66 then Some (uint c - 0x57)
      else if 0x41 \<le> c \<and> c \<le> 0x46 then Some (uint c - 0x37)
      else None)"

definition unescape :: "code_unit \<Rightarrow> code_unit option" where
  "unescape e =
     (if e = 0x22 \<or> e = 0x5C \<or> e = 0x2F then Some e
      else if e = 0x62 then Some 0x8
      else if e = 0x66 then Some 0xC
      else if e = 0x6E then Some 0xA
      else if e = 0x72 then Some 0xD
      else if e = 0x74 then Some 0x9
      else None)"

fun read_units :: "jsstring \<Rightarrow> (jsstring \<times> jsstring) option" where
  "read_units [] = None"
| "read_units (c # cs) =
     (if c = 0x22 then Some ([], cs)
      else if c = 0x5C then
        (case cs of
           [] \<Rightarrow> None
         | e # es \<Rightarrow>
             if e = 0x75 then
               (case es of
                  h1 # h2 # h3 # h4 # rest \<Rightarrow>
                    (case (hexval h1, hexval h2, hexval h3, hexval h4) of
                       (Some a, Some b, Some c', Some d) \<Rightarrow>
                         map_option (apfst ((#) (of_int (4096 * a + 256 * b + 16 * c' + d))))
                           (read_units rest)
                     | _ \<Rightarrow> None)
                | _ \<Rightarrow> None)
             else
               (case unescape e of
                  None \<Rightarrow> None
                | Some u \<Rightarrow> map_option (apfst ((#) u)) (read_units es)))
      else if c < 0x20 then None
      else map_option (apfst ((#) c)) (read_units cs))"

definition read_string :: "jsstring \<Rightarrow> (jsstring \<times> jsstring) option" where
  "read_string s = (case s of [] \<Rightarrow> None | c # cs \<Rightarrow> if c = 0x22 then read_units cs else None)"

definition isDigit :: "code_unit \<Rightarrow> bool" where
  "isDigit c \<longleftrightarrow> 0x30 \<le> c \<and> c \<le> 0x39"

definition digits_value :: "jsstring \<Rightarrow> int" where
  "digits_value ds = foldl (\<lambda>v c. 10 * v + (uint c - 0x30)) 0 ds"

definition read_unsigned :: "jsstring \<Rightarrow> (rat \<times> jsstring) option" where
  "read_unsigned s =
     (let ip = takeWhile isDigit s; s1 = dropWhile isDigit s
      in if ip = [] \<or> (1 < length ip \<and> hd ip = 0x30) then None
         else (case s1 of
                 [] \<Rightarrow> Some (of_int (digits_value ip), s1)
               | c # r \<Rightarrow>
                   if c = 0x2E then
                     (let fp = takeWhile isDigit r
                      in if fp = [] then None
                         else Some (of_int (digits_value ip)
                                      + of_int (digits_value fp) / 10 ^ length fp,
                                    dropWhile isDigit r))
                   else Some (of_int (digits_value ip), s1)))"

definition read_number :: "jsstring \<Rightarrow> (rat \<times> jsstring) option" where
  "read_number s =
     (case s of
        [] \<Rightarrow> None
      | c # r \<Rightarrow> if c = 0x2D then map_option (apfst uminus) (read_unsigned r)
                  else read_unsigned s)"

definition read_boolean :: "jsstring \<Rightarrow> (bool \<times> jsstring) option" where
  "read_boolean s =
     (case expect (js ''true'') s of
        Some r \<Rightarrow> Some (True, r)
      | None \<Rightarrow> map_option (Pair False) (expect (js ''false'') s))"

text \<open>
  A property read again replaces the value read before under its name and keeps its place
  (\<^verbatim>\<open>CreateDataProperty\<close>).
\<close>

fun define_property :: "(jsstring \<times> json) list \<Rightarrow> jsstring \<Rightarrow> json \<Rightarrow> (jsstring \<times> json) list" where
  "define_property [] k v = [(k, v)]"
| "define_property (p # ps) k v =
     (if fst p = k then (k, v) # ps else p # define_property ps k v)"

text \<open>
  The readers of a value, of the elements of an array after its opening bracket and of the
  properties of an object after its opening brace. The first argument bounds the depth of
  the calls; what \<open>reference_parse\<close> gives them is enough for every text
  (\<open>reference_parse_fuel\<close> below).
\<close>

fun read_value :: "nat \<Rightarrow> jsstring \<Rightarrow> (json \<times> jsstring) option"
  and read_elements :: "nat \<Rightarrow> jsstring \<Rightarrow> (json list \<times> jsstring) option"
  and read_members :: "nat \<Rightarrow> jsstring \<Rightarrow> ((jsstring \<times> json) list \<times> jsstring) option"
where
  "read_value 0 s = None"
| "read_value (Suc n) s =
     (case s of
        [] \<Rightarrow> None
      | c # r \<Rightarrow>
          if c = 0x22 then map_option (apfst JString) (read_string s)
          else if c = 0x5B then
            (case expect (js '']'') r of
               Some r' \<Rightarrow> Some (JArray [], r')
             | None \<Rightarrow> map_option (apfst JArray) (read_elements n r))
          else if c = 0x7B then
            (case expect (js ''}'') r of
               Some r' \<Rightarrow> Some (JObject [], r')
             | None \<Rightarrow>
                 map_option
                   (apfst (\<lambda>ps. JObject (foldl (\<lambda>qs p. define_property qs (fst p) (snd p)) [] ps)))
                   (read_members n r))
          else if c = 0x2D \<or> isDigit c then map_option (apfst JNumber) (read_number s)
          else
            (case expect (js ''null'') s of
               Some r' \<Rightarrow> Some (JNull, r')
             | None \<Rightarrow> map_option (apfst JBoolean) (read_boolean s)))"
| "read_elements 0 s = None"
| "read_elements (Suc n) s =
     (case read_value n s of
        None \<Rightarrow> None
      | Some (v, r) \<Rightarrow>
          (case r of
             [] \<Rightarrow> None
           | c # r' \<Rightarrow>
               if c = 0x5D then Some ([v], r')
               else if c = 0x2C then map_option (apfst ((#) v)) (read_elements n r')
               else None))"
| "read_members 0 s = None"
| "read_members (Suc n) s =
     (case read_string s of
        None \<Rightarrow> None
      | Some (k, r) \<Rightarrow>
          (case expect (js '':'') r of
             None \<Rightarrow> None
           | Some r1 \<Rightarrow>
               (case read_value n r1 of
                  None \<Rightarrow> None
                | Some (v, r2) \<Rightarrow>
                    (case r2 of
                       [] \<Rightarrow> None
                     | c # r' \<Rightarrow>
                         if c = 0x7D then Some ([(k, v)], r')
                         else if c = 0x2C then
                           map_option (apfst ((#) (k, v))) (read_members n r')
                         else None))))"

definition reference_parse :: "jsstring \<Rightarrow> error + json" where
  "reference_parse s =
     (case read_value (Suc (2 * length s)) s of
        Some (v, []) \<Rightarrow> Inr v
      | _ \<Rightarrow> Inl SyntaxError)"

definition reference_platform :: platform where
  "reference_platform =
     \<lparr>JSON_parse = reference_parse, JSON_stringify = SerializeJSONProperty\<rparr>"

text \<open>
  The numbers this platform writes in full: those whose decimal expansion ends within 1100
  fractional digits, as that of every double does.
\<close>

definition plain_decimal :: "number \<Rightarrow> bool" where
  "plain_decimal x \<longleftrightarrow> of_int \<lfloor>\<bar>x\<bar> * 10 ^ 1100\<rfloor> = \<bar>x\<bar> * 10 ^ 1100"


section \<open>Runs of the application\<close>

text \<open>
  The states the application reaches. It is mounted with nothing stored under its key, or
  again on the store it left behind (the platform reading back what it wrote). An input
  element has \<^verbatim>\<open>maxLength={100}\<close>, so a value typed into it has at most 100 code units.
  The \<^verbatim>\<open>inputValue\<close> of \<^verbatim>\<open>AddTodo\<close> is typed or empty. The \<^verbatim>\<open>editValue\<close> of a
  \<^verbatim>\<open>TodoItem\<close> is typed (rule \<open>edit\<close>), or it is the text that a record had when the
  item was mounted or reset (rule \<open>edit_kept\<close>). A \<^verbatim>\<open>TodoItem\<close> is rendered for a
  record of the collection; \<^verbatim>\<open>handleDelete\<close> calls \<^verbatim>\<open>deleteTodo\<close> after a delay, when the
  record may be gone already.
\<close>

inductive reachable :: "platform \<Rightarrow> app \<Rightarrow> bool" for P :: platform where
  mount:
    "storage (js ''todoApp_todos'') = None \<Longrightarrow> App_mount P storage = Inr (Mounted s) \<Longrightarrow>
     reachable P s"
| remount:
    "reachable P s \<Longrightarrow>
     JSON_parse P (JSON_stringify P (array_of (todos s))) = Inr (array_of (todos s)) \<Longrightarrow>
     App_mount P (localStorage s) = Inr (Mounted s') \<Longrightarrow> reachable P s'"
| submit:
    "reachable P s \<Longrightarrow> length inputValue \<le> 100 \<Longrightarrow>
     reachable P (snd (handleSubmit P e (inputValue, s)))"
| edit:
    "reachable P s \<Longrightarrow> todo \<in> set (todos s) \<Longrightarrow> length (editValue it) \<le> 100 \<Longrightarrow>
     reachable P (snd (handleEdit P todo (it, s)))"
| edit_kept:
    "reachable P s \<Longrightarrow> todo \<in> set (todos s) \<Longrightarrow>
     reachable P s0 \<Longrightarrow> t \<in> set (todos s0) \<Longrightarrow> editValue it = text' t \<Longrightarrow>
     reachable P (snd (handleEdit P todo (it, s)))"
| toggle:
    "reachable P s \<Longrightarrow> todo \<in> set (todos s) \<Longrightarrow> reachable P (toggleTodo P (id' todo) s)"
| delete:
    "reachable P s \<Longrightarrow> reachable P (deleteTodo P i s)"

text \<open>A sequence of submissions, each with the environment it reads and its input.\<close>

definition submits :: "platform \<Rightarrow> (env \<times> jsstring) list \<Rightarrow> app \<Rightarrow> app" where
  "submits P xs s = foldl (\<lambda>s (e, inputValue). snd (handleSubmit P e (inputValue, s))) s xs"

text \<open>
  Sample values: two environments of the same millisecond, one of the next millisecond, and
  the first start.
\<close>

definition env1 :: env where
  "env1 = \<lparr>Date_now = 1730000000000, Math_random = 1 / 4,
            toISOString = js ''2024-10-27T03:33:20.000Z''\<rparr>"

definition env2 :: env where
  "env2 = \<lparr>Date_now = 1730000000000, Math_random = 1 / 4 + 1 / 2 ^ 20,
            toISOString = js ''2024-10-27T03:33:20.000Z''\<rparr>"

definition env3 :: env where
  "env3 = \<lparr>Date_now = 1730000000001, Math_random = 1 / 2,
            toISOString = js ''2024-10-27T03:33:20.001Z''\<rparr>"

definition first_run :: app where
  "first_run =
     saveTodos reference_platform
       \<lparr>todos = [], localStorage = Map.empty, console_error = [], setItem_calls = 0\<rparr>"

definition milk :: todo where
  "milk = newTodo env1 (js ''buy milk'')"

definition dog :: todo where
  "dog = newTodo env2 (js ''walk dog'')"

definition cat :: todo where
  "cat = newTodo env3 (js ''feed cat'')"

definition shopping :: app where
  "shopping = submits reference_platform [(env1, js '' buy milk'')] first_run"

definition rapid :: app where
  "rapid =
     submits reference_platform [(env1, js '' buy milk''), (env2, js ''walk dog'')] first_run"

definition chores :: app where
  "chores =
     submits reference_platform [(env1, js '' buy milk''), (env3, js ''feed cat'')] first_run"


section \<open>Facts about the operations\<close>

subsection \<open>What each operation does to the collection\<close>

lemma todos_saveTodos: "todos (saveTodos P s) = todos s"
  by (simp add: saveTodos_def)

lemma todos_setTodos: "todos (setTodos P f s) = f (todos s)"
  by (simp add: setTodos_def saveTodos_def)

lemma setItem_calls_setTodos: "setItem_calls (setTodos P f s) = Suc (setItem_calls s)"
  by (simp add: setTodos_def saveTodos_def)

lemma localStorage_saveTodos:
  "localStorage (saveTodos P s) (js ''todoApp_todos'')
     = Some (JSON_stringify P (array_of (todos s)))"
  by (simp add: saveTodos_def)

lemma localStorage_setTodos:
  "localStorage (setTodos P f s) (js ''todoApp_todos'') =
     Some (JSON_stringify P (array_of (todos (setTodos P f s))))"
  by (simp add: setTodos_def saveTodos_def)

lemma todos_addTodo: "todos (addTodo P e txt s) = newTodo e txt # todos s"
  by (simp add: addTodo_def todos_setTodos)

lemma todos_toggleTodo:
  "todos (toggleTodo P i s) =
     map (\<lambda>t. if id' t = i then t\<lparr>completed := \<not> completed t\<rparr> else t) (todos s)"
  by (simp add: toggleTodo_def todos_setTodos)

lemma todos_deleteTodo: "todos (deleteTodo P i s) = filter (\<lambda>t. id' t \<noteq> i) (todos s)"
  by (simp add: deleteTodo_def todos_setTodos)

lemma todos_editTodo:
  "todos (editTodo P i newText s) =
     map (\<lambda>t. if id' t = i then t\<lparr>text' := newText\<rparr> else t) (todos s)"
  by (simp add: editTodo_def todos_setTodos)

lemma handleSubmit_blank:
  "trim inputValue = [] \<Longrightarrow> handleSubmit P e (inputValue, s) = (inputValue, s)"
  by (simp add: handleSubmit_def)

lemma handleSubmit_adds:
  "trim inputValue \<noteq> [] \<Longrightarrow>
   handleSubmit P e (inputValue, s) = ([], addTodo P e (trim inputValue) s)"
  by (simp add: handleSubmit_def)

lemma handleEdit_unchanged:
  "trim (editValue it) = [] \<or> trim (editValue it) = text' todo \<Longrightarrow>
   snd (handleEdit P todo (it, s)) = s"
  by (auto simp add: handleEdit_def Let_def)

lemma handleEdit_changes:
  "isEditing it \<Longrightarrow> trim (editValue it) \<noteq> [] \<Longrightarrow> trim (editValue it) \<noteq> text' todo \<Longrightarrow>
   snd (handleEdit P todo (it, s)) = editTodo P (id' todo) (trim (editValue it)) s"
  by (simp add: handleEdit_def Let_def)

lemma handleEdit_opens: "\<not> isEditing it \<Longrightarrow> snd (handleEdit P todo (it, s)) = s"
  by (simp add: handleEdit_def)

lemma handleEdit_cases:
  obtains (unchanged) "snd (handleEdit P todo (it, s)) = s"
  | (changed) "trim (editValue it) \<noteq> []"
      "snd (handleEdit P todo (it, s)) = editTodo P (id' todo) (trim (editValue it)) s"
proof (cases "isEditing it \<and> trim (editValue it) \<noteq> [] \<and> trim (editValue it) \<noteq> text' todo")
  case True
  then show ?thesis using changed by (simp add: handleEdit_changes)
next
  case False
  then have "snd (handleEdit P todo (it, s)) = s"
    using handleEdit_unchanged[of it todo P s] handleEdit_opens[of it P todo s] by blast
  then show ?thesis by (rule unchanged)
qed

lemma toggle_twice:
  "map (\<lambda>t. if id' t = i then t\<lparr>completed := \<not> completed t\<rparr> else t)
     (map (\<lambda>t. if id' t = i then t\<lparr>completed := \<not> completed t\<rparr> else t) ts) = (ts :: todo list)"
  by (induction ts) auto

lemma toggle_absent:
  "i \<notin> id' ` set ts \<Longrightarrow>
   map (\<lambda>t. if id' t = i then t\<lparr>completed := \<not> completed t\<rparr> else t) ts = (ts :: todo list)"
  by (induction ts) auto

lemma edit_elsewhere:
  assumes "distinct (map id' ts)" "k < length ts" "j < length ts" "j \<noteq> k" "id' (ts ! k) = i"
  shows "map (\<lambda>t. if id' t = i then t\<lparr>text' := newText\<rparr> else t) ts ! j = ts ! j"
proof -
  have "id' (ts ! j) \<noteq> id' (ts ! k)"
    using assms(1-4) by (simp add: distinct_conv_nth)
  then show ?thesis using assms(3,5) by simp
qed

lemma filters_pending: "js ''pending'' \<noteq> js ''completed''"
  by code_simp

lemma filteredTodos_completed:
  "filteredTodos (js ''completed'') ts = filter (\<lambda>t. completed t) ts"
  by (simp add: filteredTodos_def)

lemma filteredTodos_pending:
  "filteredTodos (js ''pending'') ts = filter (\<lambda>t. \<not> completed t) ts"
  by (simp add: filteredTodos_def filters_pending)

subsection \<open>Task records as values\<close>

text \<open>
  A collection and its array determine each other, and the body of \<^verbatim>\<open>App\<close> evaluates on
  the array of a collection without raising, to the statistics of the collection.
\<close>

lemma property_names:
  "js ''text'' \<noteq> js ''id''" "js ''completed'' \<noteq> js ''id''" "js ''createdAt'' \<noteq> js ''id''"
  "js ''completed'' \<noteq> js ''text''" "js ''createdAt'' \<noteq> js ''text''"
  "js ''createdAt'' \<noteq> js ''completed''"
  by code_simp+

lemma record_of_object_of: "record_of (object_of t) = t"
  using property_names by (simp add: record_of_def object_of_def)

lemma todos_of_array_of: "todos_of (array_of ts) = Some ts"
  by (simp add: todos_of_def array_of_def comp_def record_of_object_of)

lemma todos_of_Some: "todos_of v = Some ts \<Longrightarrow> v = array_of ts"
  by (auto simp add: todos_of_def array_of_def Let_def split: json.splits if_splits)

lemma array_of_inject: "array_of ts = array_of us \<longleftrightarrow> ts = us"
proof
  assume "array_of ts = array_of us"
  then have "todos_of (array_of ts) = todos_of (array_of us)" by simp
  then show "ts = us" by (simp add: todos_of_array_of)
qed simp

lemma App_body_array_of:
  "App_body (array_of ts) =
     Inr (int (length ts), int (length (filter (\<lambda>todo. completed todo) ts)),
          int (length ts) - int (length (filter (\<lambda>todo. completed todo) ts)))"
proof -
  have "JNull \<notin> set (map object_of ts)" by (auto simp add: object_of_def)
  moreover have
    "filter (\<lambda>todo. truthy (case todo of JObject ps \<Rightarrow> map_of ps (js ''completed'') | _ \<Rightarrow> None))
       (map object_of ts) = map object_of (filter (\<lambda>todo. completed todo) ts)"
    using property_names
    by (induction ts) (simp_all add: object_of_def truthy_def)
  ultimately show ?thesis by (simp add: App_body_def array_of_def Let_def)
qed

lemma App_body_stats:
  "App_body (array_of (todos s)) = Inr (totalTodos s, completedTodos s, pendingTodos s)"
  by (simp add: App_body_array_of totalTodos_def completedTodos_def pendingTodos_def)

subsection \<open>Trimming\<close>

lemma length_trim: "length (trim s) \<le> length s"
proof -
  have "length (dropWhile trimmable (rev (dropWhile trimmable s))) \<le> length (rev (dropWhile trimmable s))"
    by (rule length_dropWhile_le)
  also have "\<dots> \<le> length s"
    by (simp add: length_dropWhile_le)
  finally show ?thesis by (simp add: trim_def)
qed

lemma trim_ends:
  assumes "trim s \<noteq> []"
  shows "\<not> trimmable (hd (trim s))" and "\<not> trimmable (last (trim s))"
proof -
  let ?t = "dropWhile trimmable s"
  let ?u = "dropWhile trimmable (rev ?t)"
  from assms have u: "?u \<noteq> []" by (simp add: trim_def)
  then have t: "?t \<noteq> []" by (cases "?t = []") simp_all
  have "last (trim s) = hd ?u" using u by (simp add: trim_def last_rev)
  then show "\<not> trimmable (last (trim s))" using u hd_dropWhile[of trimmable "rev ?t"] by simp
  have "hd (trim s) = last ?u" using u by (simp add: trim_def hd_rev)
  also have "\<dots> = last (rev ?t)"
  proof -
    have "rev ?t = takeWhile trimmable (rev ?t) @ ?u" by simp
    then show ?thesis using u by (metis last_appendR)
  qed
  also have "\<dots> = hd ?t" using t by (simp add: last_rev)
  finally show "\<not> trimmable (hd (trim s))" using t hd_dropWhile[of trimmable s] by simp
qed

lemma trim_fixed:
  assumes "s = [] \<or> (\<not> trimmable (hd s) \<and> \<not> trimmable (last s))"
  shows "trim s = s"
proof (cases "s = []")
  case True
  then show ?thesis by (simp add: trim_def)
next
  case False
  with assms have h: "\<not> trimmable (hd s)" and l: "\<not> trimmable (last s)" by auto
  have 1: "dropWhile trimmable s = s" using h by (simp add: dropWhile_eq_self_iff)
  have "hd (rev s) = last s" using False by (simp add: hd_rev)
  moreover have "rev s \<noteq> []" using False by simp
  ultimately have 2: "dropWhile trimmable (rev s) = rev s"
    using l by (simp add: dropWhile_eq_self_iff)
  show ?thesis by (simp add: trim_def 1 2)
qed

lemma trim_idem: "trim (trim s) = trim s"
  using trim_ends[of s] by (intro trim_fixed) blast

subsection \<open>Mounting\<close>

lemma App_mount_absent:
  "storage (js ''todoApp_todos'') = None \<or> storage (js ''todoApp_todos'') = Some [] \<Longrightarrow>
   App_mount P storage =
     Inr (Mounted (saveTodos P \<lparr>todos = [], localStorage = storage, console_error = [],
                                 setItem_calls = 0\<rparr>))"
  by (auto simp add: App_mount_def loadTodos_def)

lemma App_mount_unparsable:
  "storage (js ''todoApp_todos'') = Some saved \<Longrightarrow> saved \<noteq> [] \<Longrightarrow> JSON_parse P saved = Inl e \<Longrightarrow>
   App_mount P storage =
     Inr (Mounted (saveTodos P \<lparr>todos = [], localStorage = storage,
            console_error = [(js ''Error loading todos from localStorage:'', e)],
            setItem_calls = 0\<rparr>))"
  by (simp add: App_mount_def loadTodos_def try_catch_def)

lemma App_mount_value:
  "storage (js ''todoApp_todos'') = Some saved \<Longrightarrow> saved \<noteq> [] \<Longrightarrow> JSON_parse P saved = Inr v \<Longrightarrow>
   App_mount P storage =
     (let s = saveTodos P \<lparr>todos = [], localStorage = storage, console_error = [],
                            setItem_calls = 0\<rparr>
      in case App_body v of
           Inl e \<Rightarrow> Inl e
         | Inr stats \<Rightarrow>
             (case todos_of v of
                Some ts \<Rightarrow> Inr (Mounted (saveTodos P (s\<lparr>todos := ts\<rparr>)))
              | None \<Rightarrow>
                  Inr (Foreign v ((localStorage s)(js ''todoApp_todos'' \<mapsto> JSON_stringify P v))
                         (console_error s) (Suc (setItem_calls s)))))"
  by (simp add: App_mount_def loadTodos_def try_catch_def)

lemma App_mount_parsed:
  "storage (js ''todoApp_todos'') = Some saved \<Longrightarrow> saved \<noteq> [] \<Longrightarrow>
   JSON_parse P saved = Inr (array_of c) \<Longrightarrow>
   App_mount P storage =
     Inr (Mounted (saveTodos P
       ((saveTodos P \<lparr>todos = [], localStorage = storage, console_error = [],
                       setItem_calls = 0\<rparr>)\<lparr>todos := c\<rparr>)))"
  by (simp add: App_mount_value App_body_array_of todos_of_array_of)

lemma App_mount_raises:
  "storage (js ''todoApp_todos'') = Some saved \<Longrightarrow> saved \<noteq> [] \<Longrightarrow> JSON_parse P saved = Inr v \<Longrightarrow>
   App_body v = Inl e \<Longrightarrow> App_mount P storage = Inl e"
  by (simp add: App_mount_value)

lemma App_mount_foreign:
  "storage (js ''todoApp_todos'') = Some saved \<Longrightarrow> saved \<noteq> [] \<Longrightarrow> JSON_parse P saved = Inr v \<Longrightarrow>
   App_body v = Inr stats \<Longrightarrow> todos_of v = None \<Longrightarrow>
   App_mount P storage =
     Inr (Foreign v (storage(js ''todoApp_todos'' \<mapsto> JSON_stringify P v)) [] 2)"
  by (simp add: App_mount_value saveTodos_def)

lemma App_mount_cases:
  obtains
    (absent) "storage (js ''todoApp_todos'') = None \<or> storage (js ''todoApp_todos'') = Some []"
  | (unparsable) saved e where "storage (js ''todoApp_todos'') = Some saved" "saved \<noteq> []"
      "JSON_parse P saved = Inl e"
  | (parsed) saved v where "storage (js ''todoApp_todos'') = Some saved" "saved \<noteq> []"
      "JSON_parse P saved = Inr v"
proof (cases "storage (js ''todoApp_todos'')")
  case None
  then show ?thesis using absent by simp
next
  case (Some saved)
  show ?thesis
  proof (cases "saved = []")
    case True
    then show ?thesis using Some absent by simp
  next
    case False
    then show ?thesis using Some unparsable parsed by (cases "JSON_parse P saved") auto
  qed
qed

lemma App_mount_Mounted:
  assumes "App_mount P storage = Inr (Mounted s)"
  obtains (initial) reported where
      "s = saveTodos P \<lparr>todos = [], localStorage = storage, console_error = reported,
                         setItem_calls = 0\<rparr>"
  | (loaded) saved c where "storage (js ''todoApp_todos'') = Some saved" "saved \<noteq> []"
      "JSON_parse P saved = Inr (array_of c)"
      "s = saveTodos P ((saveTodos P \<lparr>todos = [], localStorage = storage, console_error = [],
                                      setItem_calls = 0\<rparr>)\<lparr>todos := c\<rparr>)"
proof (cases rule: App_mount_cases[where storage = storage and P = P])
  case absent
  with assms show ?thesis using initial[of "[]"] by (auto simp add: App_mount_absent)
next
  case (unparsable saved e)
  with assms show ?thesis
    using initial[of "[(js ''Error loading todos from localStorage:'', e)]"]
    by (auto simp add: App_mount_unparsable)
next
  case (parsed saved v)
  with assms obtain c where c: "todos_of v = Some c"
    by (auto simp add: App_mount_value Let_def split: sum.splits option.splits)
  then have v: "v = array_of c" by (rule todos_of_Some)
  with parsed assms show ?thesis using loaded[of saved c] by (simp add: App_mount_parsed)
qed

lemma load_absent:
  "storage (js ''todoApp_todos'') = None \<or> storage (js ''todoApp_todos'') = Some [] \<Longrightarrow>
   load P storage = Inr (JArray [], [])"
  by (simp add: load_def App_mount_absent saveTodos_def array_of_def)

lemma load_unparsable:
  "storage (js ''todoApp_todos'') = Some saved \<Longrightarrow> saved \<noteq> [] \<Longrightarrow> JSON_parse P saved = Inl e \<Longrightarrow>
   load P storage = Inr (JArray [], [(js ''Error loading todos from localStorage:'', e)])"
  by (simp add: load_def App_mount_unparsable saveTodos_def array_of_def)

lemma load_parsed:
  "storage (js ''todoApp_todos'') = Some saved \<Longrightarrow> saved \<noteq> [] \<Longrightarrow>
   JSON_parse P saved = Inr (array_of c) \<Longrightarrow> load P storage = Inr (array_of c, [])"
  by (simp add: load_def App_mount_parsed saveTodos_def)

lemma load_raises:
  "storage (js ''todoApp_todos'') = Some saved \<Longrightarrow> saved \<noteq> [] \<Longrightarrow> JSON_parse P saved = Inr v \<Longrightarrow>
   App_body v = Inl e \<Longrightarrow> load P storage = Inl e"
  by (simp add: load_def App_mount_raises)

lemma load_foreign:
  "storage (js ''todoApp_todos'') = Some saved \<Longrightarrow> saved \<noteq> [] \<Longrightarrow> JSON_parse P saved = Inr v \<Longrightarrow>
   App_body v = Inr stats \<Longrightarrow> todos_of v = None \<Longrightarrow> load P storage = Inr (v, [])"
  by (simp add: load_def App_mount_foreign)

text \<open>
  What is loaded from a stored text that parses: the parsed value, unless the body of
  \<^verbatim>\<open>App\<close> throws on it.
\<close>

lemma load_value:
  assumes "storage (js ''todoApp_todos'') = Some saved" "saved \<noteq> []" "JSON_parse P saved = Inr v"
  shows "load P storage = (case App_body v of Inl e \<Rightarrow> Inl e | Inr stats \<Rightarrow> Inr (v, []))"
proof (cases "App_body v")
  case (Inl e)
  then show ?thesis using assms by (simp add: load_raises)
next
  case (Inr stats)
  show ?thesis
  proof (cases "todos_of v")
    case None
    then show ?thesis using assms Inr by (simp add: load_foreign)
  next
    case (Some ts)
    then have "v = array_of ts" by (rule todos_of_Some)
    then show ?thesis using assms Inr by (simp add: load_parsed)
  qed
qed

lemma App_mount_saved:
  assumes "App_mount P storage = Inr (Mounted s)"
  shows "localStorage s (js ''todoApp_todos'') = Some (JSON_stringify P (array_of (todos s)))"
  using assms by (cases rule: App_mount_Mounted) (simp_all add: saveTodos_def)

lemma App_mount_first:
  assumes "storage (js ''todoApp_todos'') = None" and "App_mount P storage = Inr (Mounted s)"
  shows "todos s = []"
  using assms by (auto simp add: App_mount_absent saveTodos_def)

lemma App_mount_again:
  assumes "localStorage s (js ''todoApp_todos'') = Some (JSON_stringify P (array_of (todos s)))"
    and "JSON_parse P (JSON_stringify P (array_of (todos s))) = Inr (array_of (todos s))"
    and "App_mount P (localStorage s) = Inr (Mounted s')"
  shows "todos s' = todos s \<or> todos s' = []"
proof (cases "JSON_stringify P (array_of (todos s)) = []")
  case True
  with assms(1) have "localStorage s (js ''todoApp_todos'') = Some []" by simp
  with assms(3) show ?thesis by (auto simp add: App_mount_absent saveTodos_def)
next
  case False
  with assms show ?thesis by (auto simp add: App_mount_parsed saveTodos_def)
qed

subsection \<open>Reachable states\<close>

text \<open>In every reachable state the store holds the serialized collection.\<close>

lemma reachable_saved:
  "reachable P s \<Longrightarrow>
   localStorage s (js ''todoApp_todos'') = Some (JSON_stringify P (array_of (todos s)))"
proof (induction rule: reachable.induct)
  case (mount storage s)
  then show ?case by (simp add: App_mount_saved)
next
  case (remount s s')
  then show ?case by (simp add: App_mount_saved)
next
  case (submit s inputValue e)
  then show ?case
    by (cases "trim inputValue = []")
      (simp_all add: handleSubmit_blank handleSubmit_adds addTodo_def localStorage_setTodos)
next
  case (edit s todo it)
  show ?case
  proof (cases rule: handleEdit_cases[where P = P and todo = todo and it = it and s = s])
    case unchanged
    then show ?thesis using edit.IH by simp
  next
    case changed
    then show ?thesis by (simp add: editTodo_def localStorage_setTodos)
  qed
next
  case (edit_kept s todo s0 t it)
  show ?case
  proof (cases rule: handleEdit_cases[where P = P and todo = todo and it = it and s = s])
    case unchanged
    then show ?thesis using edit_kept.IH(1) by simp
  next
    case changed
    then show ?thesis by (simp add: editTodo_def localStorage_setTodos)
  qed
next
  case (toggle s todo)
  then show ?case by (simp add: toggleTodo_def localStorage_setTodos)
next
  case (delete s i)
  then show ?case by (simp add: deleteTodo_def localStorage_setTodos)
qed

text \<open>
  Every operation but \<^verbatim>\<open>addTodo\<close> keeps the ids of the collection distinct, and \<^verbatim>\<open>addTodo\<close>
  does when the id it computes is not in the collection yet.
\<close>

lemma map_id_toggle:
  "map id' (map (\<lambda>t. if id' t = i then t\<lparr>completed := \<not> completed t\<rparr> else t) ts) = map id' ts"
  by (induction ts) auto

lemma map_id_edit:
  "map id' (map (\<lambda>t. if id' t = i then t\<lparr>text' := newText\<rparr> else t) ts) = map id' ts"
  by (induction ts) auto

lemma ids_toggleTodo: "map id' (todos (toggleTodo P i s)) = map id' (todos s)"
  by (simp add: todos_toggleTodo map_id_toggle)

lemma ids_editTodo: "map id' (todos (editTodo P i newText s)) = map id' (todos s)"
  by (simp add: todos_editTodo map_id_edit)

lemma ids_deleteTodo: "map id' (todos (deleteTodo P i s)) = filter (\<lambda>j. j \<noteq> i) (map id' (todos s))"
  by (simp add: todos_deleteTodo filter_map comp_def)

lemma unique_ids_kept:
  assumes "distinct (map id' (todos s))"
  shows "distinct (map id' (todos (toggleTodo P i s)))"
    and "distinct (map id' (todos (editTodo P i newText s)))"
    and "distinct (map id' (todos (deleteTodo P i s)))"
    and "id' (newTodo e txt) \<notin> id' ` set (todos s) \<Longrightarrow>
         distinct (map id' (todos (addTodo P e txt s)))"
  using assms by (simp_all add: ids_toggleTodo ids_editTodo ids_deleteTodo todos_addTodo)

subsection \<open>The reference platform reads back what it writes\<close>

text \<open>String literals: every code unit sequence is read back from its quoted form.\<close>

lemma hexval_hexdigit:
  assumes "0 \<le> d" "d < 16"
  shows "hexval (hexdigit d) = Some d"
proof -
  from assms have "d = 0 \<or> d = 1 \<or> d = 2 \<or> d = 3 \<or> d = 4 \<or> d = 5 \<or> d = 6 \<or> d = 7 \<or> d = 8 \<or> d = 9
      \<or> d = 10 \<or> d = 11 \<or> d = 12 \<or> d = 13 \<or> d = 14 \<or> d = 15"
    by arith
  then show ?thesis
    by (elim disjE) (simp_all add: hexdigit_def hexval_def)
qed

lemma hex_parts:
  fixes c :: code_unit
  shows "0 \<le> uint c div 4096" "uint c div 4096 < 16"
    "0 \<le> uint c div 256 mod 16" "uint c div 256 mod 16 < 16"
    "0 \<le> uint c div 16 mod 16" "uint c div 16 mod 16 < 16"
    "0 \<le> uint c mod 16" "uint c mod 16 < 16"
proof -
  have "uint c < 65536" using uint_lt2p[of c] by simp
  then show "uint c div 4096 < 16" by simp
qed (simp_all add: pos_imp_zdiv_nonneg_iff)

lemma hex_sum: "4096 * ((u::int) div 4096) + 256 * (u div 256 mod 16)
           + 16 * (u div 16 mod 16) + u mod 16 = u"
proof -
  define q1 where "q1 = u div 16"
  define q2 where "q2 = u div 256"
  define q3 where "q3 = u div 4096"
  have 1: "u = 16 * q1 + u mod 16" by (simp add: q1_def)
  have "q1 div 16 = q2" using zdiv_zmult2_eq[of 16 u 16] by (simp add: q1_def q2_def)
  then have 2: "q1 = 16 * q2 + q1 mod 16" using mult_div_mod_eq[of 16 q1] by simp
  have "q2 div 16 = q3" using zdiv_zmult2_eq[of 16 u 256] by (simp add: q2_def q3_def)
  then have 3: "q2 = 16 * q3 + q2 mod 16" using mult_div_mod_eq[of 16 q2] by simp
  define r1 where "r1 = q1 mod 16"
  define r2 where "r2 = q2 mod 16"
  define r0 where "r0 = u mod 16"
  have "4096 * q3 + 256 * r2 + 16 * r1 + r0 = u"
    using 1 2 3 unfolding r1_def[symmetric] r2_def[symmetric] r0_def[symmetric] by linarith
  then show ?thesis by (simp add: q1_def q2_def q3_def r0_def r1_def r2_def)
qed

lemma hex_value:
  fixes c :: code_unit
  shows "of_int (4096 * (uint c div 4096) + 256 * (uint c div 256 mod 16)
           + 16 * (uint c div 16 mod 16) + uint c mod 16) = c"
  unfolding hex_sum by simp

lemma read_units_u:
  assumes "hexval h1 = Some a" "hexval h2 = Some b" "hexval h3 = Some c" "hexval h4 = Some d"
  shows "read_units (0x5C # 0x75 # h1 # h2 # h3 # h4 # s) =
    map_option (apfst ((#) (of_int (4096 * a + 256 * b + 16 * c + d)))) (read_units s)"
  using assms by simp

lemma read_units_UnicodeEscape:
  "read_units (UnicodeEscape c @ s) = map_option (apfst ((#) c)) (read_units s)"
proof -
  have "read_units (UnicodeEscape c @ s) =
      map_option (apfst ((#) (of_int (4096 * (uint c div 4096) + 256 * (uint c div 256 mod 16)
           + 16 * (uint c div 16 mod 16) + uint c mod 16)))) (read_units s)"
    unfolding UnicodeEscape_def append_Cons append_Nil
    by (rule read_units_u) (simp_all add: hexval_hexdigit hex_parts)
  then show ?thesis by (simp only: hex_value)
qed

lemma read_units_escape:
  assumes "unescape e = Some u"
  shows "read_units (0x5C # e # s) = map_option (apfst ((#) u)) (read_units s)"
proof -
  have "e \<noteq> 0x75" using assms by (auto simp add: unescape_def)
  then show ?thesis using assms by simp
qed

lemma read_units_plain:
  assumes "c \<noteq> 0x22" "c \<noteq> 0x5C" "\<not> c < 0x20"
  shows "read_units (c # s) = map_option (apfst ((#) c)) (read_units s)"
  using assms by simp

lemma surrogate_plain:
  assumes "leading_surrogate c \<or> trailing_surrogate c"
  shows "c \<noteq> 0x22" "c \<noteq> 0x5C" "\<not> c < 0x20"
  using assms by (auto simp add: leading_surrogate_def trailing_surrogate_def word_le_def word_less_def)

lemma read_quote_units: "read_units (quote_units s @ 0x22 # rest) = Some (s, rest)"
proof (induction s rule: quote_units.induct)
  case 1
  show ?case by simp
next
  case (2 c cs)
  consider (b) "c = 0x8" | (t) "c = 0x9" | (n) "c = 0xA" | (f) "c = 0xC" | (r) "c = 0xD"
    | (q) "c = 0x22" | (s) "c = 0x5C"
    | (ctl) "c \<noteq> 0x8" "c \<noteq> 0x9" "c \<noteq> 0xA" "c \<noteq> 0xC" "c \<noteq> 0xD" "c \<noteq> 0x22" "c \<noteq> 0x5C" "c < 0x20"
    | (other) "c \<noteq> 0x8" "c \<noteq> 0x9" "c \<noteq> 0xA" "c \<noteq> 0xC" "c \<noteq> 0xD" "c \<noteq> 0x22" "c \<noteq> 0x5C"
        "\<not> c < 0x20"
    by blast
  then show ?case
  proof cases
    case b
    then show ?thesis using "2.IH"(1) by (simp add: read_units_escape unescape_def)
  next
    case t
    then show ?thesis using "2.IH"(2) by (simp add: read_units_escape unescape_def)
  next
    case n
    then show ?thesis using "2.IH"(3) by (simp add: read_units_escape unescape_def)
  next
    case f
    then show ?thesis using "2.IH"(4) by (simp add: read_units_escape unescape_def)
  next
    case r
    then show ?thesis using "2.IH"(5) by (simp add: read_units_escape unescape_def)
  next
    case q
    then show ?thesis using "2.IH"(6) by (simp add: read_units_escape unescape_def)
  next
    case s
    then show ?thesis using "2.IH"(7) by (simp add: read_units_escape unescape_def)
  next
    case ctl
    then show ?thesis
      using "2.IH"(8) by (simp del: read_units.simps add: read_units_UnicodeEscape)
  next
    case other
    show ?thesis
    proof (cases "leading_surrogate c")
      case True
      show ?thesis
      proof (cases cs)
        case Nil
        then show ?thesis
          using other True
          by (simp del: read_units.simps add: read_units_UnicodeEscape) simp
      next
        case (Cons d ds)
        show ?thesis
        proof (cases "trailing_surrogate d")
          case td: True
          have "read_units (quote_units ds @ 0x22 # rest) = Some (ds, rest)"
            using "2.IH"(9) other True Cons td by simp
          then show ?thesis
            using other True Cons td surrogate_plain[of d]
            by (simp del: read_units.simps add: read_units_plain)
        next
          case False
          have "read_units (quote_units cs @ 0x22 # rest) = Some (cs, rest)"
            using "2.IH"(10) other True Cons False by simp
          then show ?thesis
            using other True Cons False
            by (simp del: read_units.simps quote_units.simps(2)
                add: quote_units.simps(2)[of c] read_units_UnicodeEscape)
        qed
      qed
    next
      case False
      show ?thesis
      proof (cases "trailing_surrogate c")
        case True
        have "read_units (quote_units cs @ 0x22 # rest) = Some (cs, rest)"
          using "2.IH"(11) other False True by simp
        then show ?thesis
          using other False True
          by (simp del: read_units.simps add: read_units_UnicodeEscape)
      next
        case nt: False
        have "read_units (quote_units cs @ 0x22 # rest) = Some (cs, rest)"
          using "2.IH"(12) other False nt by simp
        then show ?thesis
          using other False nt
          by (simp del: read_units.simps add: read_units_plain)
      qed
    qed
  qed
qed

lemma read_QuoteJSONString: "read_string (QuoteJSONString s @ rest) = Some (s, rest)"
  by (simp add: read_string_def QuoteJSONString_def read_quote_units)

text \<open>Numbers: a plain decimal is read back from its expansion.\<close>

lemma digit_unit:
  assumes "0 \<le> d" "d < 10"
  shows "isDigit (0x30 + of_int d)" "uint (0x30 + of_int d :: code_unit) - 0x30 = d"
    "(0x30 + of_int d :: code_unit) \<noteq> 0x2E" "(0x30 + of_int d :: code_unit) \<noteq> 0x2D"
    "(0x30 + of_int d :: code_unit) = 0x30 \<longleftrightarrow> d = 0"
proof -
  from assms have d: "d = 0 \<or> d = 1 \<or> d = 2 \<or> d = 3 \<or> d = 4 \<or> d = 5 \<or> d = 6 \<or> d = 7 \<or> d = 8 \<or> d = 9"
    by arith
  from d show "isDigit (0x30 + of_int d)"
    by (elim disjE) (simp_all add: isDigit_def)
  from d show "uint (0x30 + of_int d :: code_unit) - 0x30 = d"
    by (elim disjE) simp_all
  from d show "(0x30 + of_int d :: code_unit) \<noteq> 0x2E"
    by (elim disjE) simp_all
  from d show "(0x30 + of_int d :: code_unit) \<noteq> 0x2D"
    by (elim disjE) simp_all
  from d show "(0x30 + of_int d :: code_unit) = 0x30 \<longleftrightarrow> d = 0"
    by (elim disjE) simp_all
qed

lemma digits_value_snoc:
  "digits_value (ds @ [c]) = 10 * digits_value ds + (uint c - 0x30)"
  by (simp add: digits_value_def)

lemma digits_value_Cons_aux:
  fixes f :: "int \<Rightarrow> code_unit \<Rightarrow> int"
  assumes f: "\<And>v c. f v c = 10 * v + (uint c - 0x30)"
  shows "foldl f a ds = a * 10 ^ length ds + foldl f 0 ds"
proof (induction ds arbitrary: a)
  case Nil
  show ?case by simp
next
  case (Cons c ds)
  have "foldl f a (c # ds) = foldl f (f a c) ds" by simp
  also have "\<dots> = f a c * 10 ^ length ds + foldl f 0 ds" by (rule Cons.IH)
  finally have "foldl f a (c # ds) = (10 * a + (uint c - 0x30)) * 10 ^ length ds + foldl f 0 ds"
    by (simp only: f)
  moreover have "foldl f 0 (c # ds) = foldl f (f 0 c) ds" by simp
  then have "foldl f 0 (c # ds) = f 0 c * 10 ^ length ds + foldl f 0 ds"
    by (simp only: Cons.IH[of "f 0 c"])
  then have "foldl f 0 (c # ds) = (uint c - 0x30) * 10 ^ length ds + foldl f 0 ds"
    by (simp only: f) simp
  ultimately show ?case by (simp add: algebra_simps)
qed

lemma digits_value_Cons:
  "digits_value (c # ds) = (uint c - 0x30) * 10 ^ length ds + digits_value ds"
  using digits_value_Cons_aux[of "\<lambda>v c. 10 * v + (uint c - 0x30)" "uint c - 0x30" ds]
  by (simp add: digits_value_def)

lemma decimal_small: "n < 10 \<Longrightarrow> decimal n = [0x30 + of_int n]"
  by (subst decimal.simps) simp

lemma decimal_large:
  "\<not> n < 10 \<Longrightarrow> decimal n = decimal (n div 10) @ [0x30 + of_int (n mod 10)]"
  by (subst decimal.simps) simp

lemma decimal_digits:
  "0 \<le> n \<Longrightarrow> list_all isDigit (decimal n) \<and> decimal n \<noteq> [] \<and> digits_value (decimal n) = n"
proof (induction n rule: decimal.induct)
  case (1 n)
  show ?case
  proof (cases "n < 10")
    case True
    then show ?thesis
      using "1.prems" digit_unit[of n]
      by (simp only: decimal_small) (simp add: digits_value_def)
  next
    case False
    then have "0 \<le> n div 10" by simp
    with "1.IH" False have ih: "list_all isDigit (decimal (n div 10))"
      "digits_value (decimal (n div 10)) = n div 10" by simp_all
    have m: "0 \<le> n mod 10" "n mod 10 < 10" by simp_all
    show ?thesis
      using ih digit_unit[OF m]
      by (simp only: decimal_large[OF False]) (simp add: digits_value_snoc)
  qed
qed

lemma decimal_no_leading_zero: "1 \<le> n \<Longrightarrow> hd (decimal n) \<noteq> 0x30"
proof (induction n rule: decimal.induct)
  case (1 n)
  show ?case
  proof (cases "n < 10")
    case True
    then show ?thesis
      using "1.prems" digit_unit(5)[of n] by (simp only: decimal_small) simp
  next
    case False
    then have q: "1 \<le> n div 10" by simp
    then have "decimal (n div 10) \<noteq> []" using decimal_digits[of "n div 10"] by simp
    then show ?thesis
      using "1.IH"[OF False q] by (simp only: decimal_large[OF False]) simp
  qed
qed

lemma decimal_leading:
  assumes "0 \<le> n"
  shows "\<not> (1 < length (decimal n) \<and> hd (decimal n) = 0x30)"
proof (cases "n < 10")
  case True
  then show ?thesis by (simp only: decimal_small) simp
next
  case False
  then show ?thesis using decimal_no_leading_zero[of n] by simp
qed

lemma fraction_digits: "0 \<le> r \<Longrightarrow> r < 1 \<Longrightarrow> list_all isDigit (fraction k r)"
proof (induction k arbitrary: r)
  case 0
  show ?case by simp
next
  case (Suc k)
  show ?case
  proof (cases "r = 0")
    case True
    then show ?thesis by simp
  next
    case False
    let ?d = "\<lfloor>r * 10\<rfloor>"
    have d: "0 \<le> ?d" "?d < 10" using Suc.prems by (simp_all add: floor_less_iff)
    have r': "0 \<le> r * 10 - of_int ?d" "r * 10 - of_int ?d < 1"
      by (simp_all add: floor_less_iff) linarith
    show ?thesis
      using False digit_unit(1)[OF d] Suc.IH[OF r'] by (simp add: Let_def)
  qed
qed

lemma fraction_nonempty: "r \<noteq> 0 \<Longrightarrow> fraction (Suc k) r \<noteq> []"
  by (simp add: Let_def)

lemma fraction_value:
  assumes "0 \<le> r" "r < 1" "r * 10 ^ k \<in> \<int>"
  shows "of_int (digits_value (fraction k r)) / 10 ^ length (fraction k r) = r"
  using assms
proof (induction k arbitrary: r)
  case 0
  then obtain n :: int where n: "r = of_int n" by (auto elim: Ints_cases)
  with "0.prems"(1,2) have "n = 0" by simp
  then show ?case by (simp add: n digits_value_def)
next
  case (Suc k)
  show ?case
  proof (cases "r = 0")
    case True
    then show ?thesis by (simp add: digits_value_def)
  next
    case False
    let ?d = "\<lfloor>r * 10\<rfloor>"
    let ?r = "r * 10 - of_int ?d"
    have d: "0 \<le> ?d" "?d < 10" using Suc.prems by (simp_all add: floor_less_iff)
    have r': "0 \<le> ?r" "?r < 1"
      by (simp_all add: floor_less_iff) linarith
    have "?r * 10 ^ k = r * 10 ^ Suc k - of_int (?d * 10 ^ k)"
      by (simp add: algebra_simps)
    moreover have "r * 10 ^ Suc k - of_int (?d * 10 ^ k) \<in> \<int>"
      using Suc.prems(3) by (intro Ints_diff Ints_of_int)
    ultimately have "?r * 10 ^ k \<in> \<int>" by (simp only:)
    from Suc.IH[OF r' this]
    have ih: "of_int (digits_value (fraction k ?r)) = ?r * 10 ^ length (fraction k ?r)"
      by (simp add: field_simps)
    have "fraction (Suc k) r = (0x30 + of_int ?d) # fraction k ?r"
      using False by (simp add: Let_def)
    then have "of_int (digits_value (fraction (Suc k) r)) / 10 ^ length (fraction (Suc k) r)
        = (of_int ?d * 10 ^ length (fraction k ?r) + ?r * 10 ^ length (fraction k ?r))
            / (10 * 10 ^ length (fraction k ?r))"
      using digit_unit(2)[OF d] ih by (simp add: digits_value_Cons)
    also have "\<dots> = (of_int ?d + ?r) / 10"
      by (simp add: field_simps)
    also have "\<dots> = r" by simp
    finally show ?thesis .
  qed
qed

lemma takeWhile_digits:
  assumes "list_all isDigit ds" "rest = [] \<or> \<not> isDigit (hd rest)"
  shows "takeWhile isDigit (ds @ rest) = ds" "dropWhile isDigit (ds @ rest) = rest"
proof -
  have ds: "\<forall>x \<in> set ds. isDigit x" using assms(1) by (simp add: list_all_iff)
  have rest: "takeWhile isDigit rest = []" "dropWhile isDigit rest = rest"
    using assms(2) by (cases rest; simp)+
  show "takeWhile isDigit (ds @ rest) = ds" using ds rest by (simp add: takeWhile_append2)
  show "dropWhile isDigit (ds @ rest) = rest" using ds rest by (simp add: dropWhile_append2)
qed

lemma plain_decimal_Ints: "plain_decimal x \<Longrightarrow> \<bar>x\<bar> * 10 ^ 1100 \<in> \<int>"
  unfolding plain_decimal_def by (metis Ints_of_int)

lemma read_unsigned_parts:
  assumes n: "0 \<le> n" and r: "0 \<le> r" "r < 1" and fin: "r * 10 ^ k \<in> \<int>"
    and k: "r = 0 \<or> fraction k r \<noteq> []"
    and rest: "rest = [] \<or> (\<not> isDigit (hd rest) \<and> hd rest \<noteq> 0x2E)"
  shows "read_unsigned ((decimal n @ (if r = 0 then [] else 0x2E # fraction k r)) @ rest)
         = Some (of_int n + r, rest)"
proof -
  define f where "f = fraction k r"
  define dn where "dn = decimal n"
  have dn: "list_all isDigit dn" "dn \<noteq> []" "digits_value dn = n"
    "\<not> (1 < length dn \<and> hd dn = 0x30)"
    using decimal_digits[OF n] decimal_leading[OF n] by (simp_all add: dn_def)
  show ?thesis
  proof (cases "r = 0")
    case True
    have tw: "takeWhile isDigit (dn @ rest) = dn" "dropWhile isDigit (dn @ rest) = rest"
      using takeWhile_digits[of dn rest] dn(1) rest by auto
    have cs: "(case rest of [] \<Rightarrow> Some (v, rest)
                | c # r \<Rightarrow> if c = 0x2E then X c r else Some (v, rest)) = Some (v, rest)"
      for v :: rat and X :: "code_unit \<Rightarrow> jsstring \<Rightarrow> (rat \<times> jsstring) option"
      using rest by (cases rest) auto
    have "read_unsigned (dn @ rest) = Some (of_int n, rest)"
      unfolding read_unsigned_def tw Let_def using dn by (simp add: cs)
    then show ?thesis
      using True by (simp add: dn_def)
  next
    case False
    have dot: "\<not> isDigit 0x2E" by (simp add: isDigit_def)
    have tw: "takeWhile isDigit (dn @ 0x2E # f @ rest) = dn"
      "dropWhile isDigit (dn @ 0x2E # f @ rest) = 0x2E # f @ rest"
      using takeWhile_digits[of dn "0x2E # f @ rest"] dn(1) dot by auto
    have fd: "list_all isDigit f" unfolding f_def by (rule fraction_digits[OF r])
    have tf: "takeWhile isDigit (f @ rest) = f" "dropWhile isDigit (f @ rest) = rest"
      using takeWhile_digits[of f rest] fd rest by auto
    have fne: "f \<noteq> []" using k False by (simp add: f_def)
    from fraction_value[OF r fin]
    have fv: "of_int (digits_value f) / 10 ^ length f = r" by (simp add: f_def)
    have "read_unsigned (dn @ 0x2E # f @ rest) = Some (of_int n + r, rest)"
      unfolding read_unsigned_def tw Let_def using dn fne fv by (simp add: tf)
    then show ?thesis
      using False by (simp add: dn_def f_def)
  qed
qed

lemma read_unsigned_decimal:
  assumes x: "0 \<le> x" and fin: "x * 10 ^ 1100 \<in> \<int>"
    and rest: "rest = [] \<or> (\<not> isDigit (hd rest) \<and> hd rest \<noteq> 0x2E)"
  shows "read_unsigned (unsigned_decimal x @ rest) = Some (x, rest)"
proof -
  define n where "n = \<lfloor>x\<rfloor>"
  define r where "r = x - of_int n"
  define k :: nat where "k = 1100"
  have n: "0 \<le> n" using x by (simp add: n_def)
  have r: "0 \<le> r" "r < 1" unfolding r_def n_def by (simp_all add: floor_less_iff) linarith
  have "0 < k" by (simp add: k_def)
  then obtain k' where k': "k = Suc k'" by (cases k) simp_all
  have kne: "r = 0 \<or> fraction k r \<noteq> []"
    unfolding k' using fraction_nonempty[of r k'] by blast
  have "r * 10 ^ k = x * 10 ^ k - of_int (n * 10 ^ k)"
    by (simp add: r_def algebra_simps)
  moreover have "x * 10 ^ k - of_int (n * 10 ^ k) \<in> \<int>"
    using fin unfolding k_def by (intro Ints_diff Ints_of_int)
  ultimately have rk: "r * 10 ^ k \<in> \<int>" by (simp only:)
  have ud: "unsigned_decimal x = decimal n @ (if r = 0 then [] else 0x2E # fraction k r)"
    unfolding unsigned_decimal_def Let_def n_def r_def k_def ..
  have xn: "of_int n + r = x" by (simp add: r_def)
  show ?thesis
    unfolding ud using read_unsigned_parts[OF n r rk kne rest] by (simp only: xn)
qed

lemma unsigned_decimal_hd:
  assumes "0 \<le> x"
  shows "unsigned_decimal x \<noteq> []" "hd (unsigned_decimal x) \<noteq> 0x2D"
proof -
  define n where "n = \<lfloor>x\<rfloor>"
  define t where "t = (if x - of_int n = 0 then [] else 0x2E # fraction 1100 (x - of_int n))"
  have ud: "unsigned_decimal x = decimal n @ t"
    unfolding unsigned_decimal_def Let_def n_def t_def ..
  have n: "0 \<le> n" using assms by (simp add: n_def)
  have ne: "decimal n \<noteq> []" using decimal_digits[OF n] by simp
  then show "unsigned_decimal x \<noteq> []" by (simp add: ud)
  have "isDigit (hd (decimal n))"
    using decimal_digits[OF n] ne by (cases "decimal n") simp_all
  then have "hd (decimal n) \<noteq> 0x2D" by (auto simp add: isDigit_def)
  then show "hd (unsigned_decimal x) \<noteq> 0x2D"
    using ne by (simp add: ud)
qed

lemma read_Number_toString:
  assumes "plain_decimal x" and "rest = [] \<or> (\<not> isDigit (hd rest) \<and> hd rest \<noteq> 0x2E)"
  shows "read_number (Number_toString x @ rest) = Some (x, rest)"
proof (cases "x < 0")
  case True
  then have nx: "0 \<le> - x" "\<bar>x\<bar> = - x" by simp_all
  with plain_decimal_Ints[OF assms(1)] have "- x * 10 ^ 1100 \<in> \<int>"
    by (simp only:)
  from read_unsigned_decimal[OF nx(1) this assms(2)]
  have "read_unsigned (unsigned_decimal (- x) @ rest) = Some (- x, rest)" .
  then show ?thesis using True by (simp add: read_number_def Number_toString_def)
next
  case False
  then have x: "0 \<le> x" "\<bar>x\<bar> = x" by simp_all
  with plain_decimal_Ints[OF assms(1)] have "x * 10 ^ 1100 \<in> \<int>"
    by (simp only:)
  from read_unsigned_decimal[OF x(1) this assms(2)]
  have ru: "read_unsigned (unsigned_decimal x @ rest) = Some (x, rest)" .
  obtain c cs where ud: "unsigned_decimal x = c # cs" and c: "c \<noteq> 0x2D"
    using unsigned_decimal_hd[OF x(1)] by (cases "unsigned_decimal x") auto
  show ?thesis
    using False ru c unfolding Number_toString_def read_number_def ud by simp
qed

text \<open>Values, records and collections.\<close>

lemma expect_prefix: "expect p (p @ s) = Some s"
  by (simp add: expect_def)

lemma read_boolean_serialized:
  "read_boolean ((if b then js ''true'' else js ''false'') @ s) = Some (b, s)"
proof (cases b)
  case True
  then show ?thesis by (simp add: read_boolean_def expect_prefix)
next
  case False
  have "expect (js ''true'') (js ''false'' @ s) = None"
    by (simp add: expect_def js_def)
  then show ?thesis using False by (simp add: read_boolean_def expect_prefix)
qed

lemma read_value_string:
  "read_value (Suc n) (QuoteJSONString s @ rest) = Some (JString s, rest)"
proof -
  obtain cs where q: "QuoteJSONString s @ rest = 0x22 # cs"
    by (simp add: QuoteJSONString_def)
  have "read_string (0x22 # cs) = Some (s, rest)"
    unfolding q[symmetric] by (rule read_QuoteJSONString)
  then show ?thesis unfolding q by simp
qed

lemma read_value_boolean:
  "read_value (Suc n) ((if b then js ''true'' else js ''false'') @ rest) = Some (JBoolean b, rest)"
proof -
  let ?s = "(if b then js ''true'' else js ''false'') @ rest"
  obtain c cs where s: "?s = c # cs" and c: "c = 0x74 \<or> c = 0x66"
    by (cases b) (simp_all add: js_def)
  have null: "expect (js ''null'') (c # cs) = None"
    using c by (auto simp add: expect_def js_def)
  have digit: "\<not> isDigit c" using c by (auto simp add: isDigit_def)
  have "read_boolean (c # cs) = Some (b, rest)"
    unfolding s[symmetric] by (rule read_boolean_serialized)
  then show ?thesis
    unfolding s using c null digit by auto
qed

lemma unsigned_decimal_first:
  assumes "0 \<le> x"
  shows "\<exists>c cs. unsigned_decimal x = c # cs \<and> isDigit c"
proof -
  define n where "n = \<lfloor>x\<rfloor>"
  define t where "t = (if x - of_int n = 0 then [] else 0x2E # fraction 1100 (x - of_int n))"
  have ud: "unsigned_decimal x = decimal n @ t"
    unfolding unsigned_decimal_def Let_def n_def t_def ..
  have n: "0 \<le> n" using assms by (simp add: n_def)
  have "decimal n \<noteq> []" "list_all isDigit (decimal n)" using decimal_digits[OF n] by simp_all
  then obtain c cs where "decimal n = c # cs" "isDigit c" by (cases "decimal n") simp_all
  then show ?thesis by (simp add: ud)
qed

lemma Number_toString_first:
  "\<exists>c cs. Number_toString x = c # cs \<and> (c = 0x2D \<or> isDigit c)"
proof (cases "x < 0")
  case True
  then show ?thesis by (simp add: Number_toString_def)
next
  case False
  then have "0 \<le> x" by simp
  from unsigned_decimal_first[OF this] show ?thesis
    using False by (auto simp add: Number_toString_def)
qed

lemma read_value_number:
  assumes "plain_decimal x" and "rest = [] \<or> (\<not> isDigit (hd rest) \<and> hd rest \<noteq> 0x2E)"
  shows "read_value (Suc n) (Number_toString x @ rest) = Some (JNumber x, rest)"
proof -
  obtain c cs where s: "Number_toString x = c # cs" and c: "c = 0x2D \<or> isDigit c"
    using Number_toString_first by blast
  have other: "c \<noteq> 0x22" "c \<noteq> 0x5B" "c \<noteq> 0x7B"
    using c by (auto simp add: isDigit_def)
  have "read_number ((c # cs) @ rest) = Some (x, rest)"
    unfolding s[symmetric] by (rule read_Number_toString[OF assms])
  then show ?thesis unfolding s using c other by auto
qed

lemma read_members_last:
  assumes "read_value k (sv @ 0x7D # rest) = Some (v, 0x7D # rest)"
  shows "read_members (Suc k) (QuoteJSONString key @ js '':'' @ sv @ 0x7D # rest)
         = Some ([(key, v)], rest)"
  using assms by (simp add: read_QuoteJSONString expect_prefix)

lemma read_members_more:
  assumes "read_value k (sv @ 0x2C # others) = Some (v, 0x2C # others)"
  shows "read_members (Suc k) (QuoteJSONString key @ js '':'' @ sv @ 0x2C # others)
         = map_option (apfst ((#) (key, v))) (read_members k others)"
  using assms by (simp add: read_QuoteJSONString expect_prefix)

lemma SerializeJSONProperty_object_of:
  "SerializeJSONProperty (object_of t) =
     0x7B # QuoteJSONString (js ''id'') @ js '':'' @ Number_toString (id' t) @
     0x2C # QuoteJSONString (js ''text'') @ js '':'' @ QuoteJSONString (text' t) @
     0x2C # QuoteJSONString (js ''completed'') @ js '':'' @
       (if completed t then js ''true'' else js ''false'') @
     0x2C # QuoteJSONString (js ''createdAt'') @ js '':'' @ QuoteJSONString (createdAt t) @
     [0x7D]"
  by (simp add: object_of_def js_def)

lemma define_properties_of_record:
  "foldl (\<lambda>qs p. define_property qs (fst p) (snd p)) []
     [(js ''id'', a), (js ''text'', b), (js ''completed'', c), (js ''createdAt'', d)]
   = [(js ''id'', a), (js ''text'', b), (js ''completed'', c), (js ''createdAt'', d)]"
  using property_names property_names[symmetric] by simp

lemma read_members_object_of:
  assumes "plain_decimal (id' t)"
  shows "read_members (Suc (Suc (Suc (Suc (Suc k)))))
           (QuoteJSONString (js ''id'') @ js '':'' @ Number_toString (id' t) @
            0x2C # QuoteJSONString (js ''text'') @ js '':'' @ QuoteJSONString (text' t) @
            0x2C # QuoteJSONString (js ''completed'') @ js '':'' @
              (if completed t then js ''true'' else js ''false'') @
            0x2C # QuoteJSONString (js ''createdAt'') @ js '':'' @ QuoteJSONString (createdAt t) @
            0x7D # rest)
         = Some ([(js ''id'', JNumber (id' t)), (js ''text'', JString (text' t)),
                  (js ''completed'', JBoolean (completed t)),
                  (js ''createdAt'', JString (createdAt t))], rest)"
proof -
  define b where "b = (if completed t then js ''true'' else js ''false'')"
  define m4 where "m4 = QuoteJSONString (js ''createdAt'') @ js '':'' @
    QuoteJSONString (createdAt t) @ 0x7D # rest"
  define m3 where "m3 = QuoteJSONString (js ''completed'') @ js '':'' @ b @ 0x2C # m4"
  define m2 where "m2 = QuoteJSONString (js ''text'') @ js '':'' @
    QuoteJSONString (text' t) @ 0x2C # m3"
  have after: "0x2C # m2 = [] \<or> (\<not> isDigit (hd (0x2C # m2)) \<and> hd (0x2C # m2) \<noteq> 0x2E)"
    by (simp add: isDigit_def)
  have 4: "read_members (Suc (Suc k)) m4
      = Some ([(js ''createdAt'', JString (createdAt t))], rest)"
    unfolding m4_def by (rule read_members_last) (rule read_value_string)
  have 3: "read_members (Suc (Suc (Suc k))) m3
      = Some ([(js ''completed'', JBoolean (completed t)),
               (js ''createdAt'', JString (createdAt t))], rest)"
  proof -
    have "read_value (Suc (Suc k)) (b @ 0x2C # m4) = Some (JBoolean (completed t), 0x2C # m4)"
      unfolding b_def by (rule read_value_boolean)
    from read_members_more[OF this] show ?thesis
      unfolding m3_def by (simp only: 4) simp
  qed
  have 2: "read_members (Suc (Suc (Suc (Suc k)))) m2
      = Some ([(js ''text'', JString (text' t)), (js ''completed'', JBoolean (completed t)),
               (js ''createdAt'', JString (createdAt t))], rest)"
  proof -
    have "read_value (Suc (Suc (Suc k))) (QuoteJSONString (text' t) @ 0x2C # m3)
        = Some (JString (text' t), 0x2C # m3)"
      by (rule read_value_string)
    from read_members_more[OF this] show ?thesis
      unfolding m2_def by (simp only: 3) simp
  qed
  have "read_value (Suc (Suc (Suc (Suc k)))) (Number_toString (id' t) @ 0x2C # m2)
      = Some (JNumber (id' t), 0x2C # m2)"
    by (rule read_value_number[OF assms after])
  from read_members_more[OF this]
  have "read_members (Suc (Suc (Suc (Suc (Suc k)))))
          (QuoteJSONString (js ''id'') @ js '':'' @ Number_toString (id' t) @ 0x2C # m2)
      = Some ([(js ''id'', JNumber (id' t)), (js ''text'', JString (text' t)),
               (js ''completed'', JBoolean (completed t)),
               (js ''createdAt'', JString (createdAt t))], rest)"
    by (simp only: 2) simp
  then show ?thesis unfolding m2_def m3_def m4_def b_def .
qed

lemma read_value_object_of:
  assumes "plain_decimal (id' t)"
  shows "read_value (k + 6) (SerializeJSONProperty (object_of t) @ rest) = Some (object_of t, rest)"
proof -
  define body where "body =
    QuoteJSONString (js ''id'') @ js '':'' @ Number_toString (id' t) @
    0x2C # QuoteJSONString (js ''text'') @ js '':'' @ QuoteJSONString (text' t) @
    0x2C # QuoteJSONString (js ''completed'') @ js '':'' @
      (if completed t then js ''true'' else js ''false'') @
    0x2C # QuoteJSONString (js ''createdAt'') @ js '':'' @ QuoteJSONString (createdAt t) @
    0x7D # rest"
  have whole: "SerializeJSONProperty (object_of t) @ rest = 0x7B # body"
    by (simp add: SerializeJSONProperty_object_of body_def)
  have "\<exists>cs. body = 0x22 # cs" by (simp add: body_def QuoteJSONString_def)
  then have open_: "expect (js ''}'') body = None" by (auto simp add: expect_def js_def)
  have members: "read_members (Suc (Suc (Suc (Suc (Suc k))))) body
      = Some ([(js ''id'', JNumber (id' t)), (js ''text'', JString (text' t)),
               (js ''completed'', JBoolean (completed t)),
               (js ''createdAt'', JString (createdAt t))], rest)"
    unfolding body_def by (rule read_members_object_of[OF assms])
  have k: "k + 6 = Suc (Suc (Suc (Suc (Suc (Suc k)))))" by simp
  show ?thesis
    unfolding whole k
    by (simp add: open_ members define_properties_of_record object_of_def
        del: foldl_Cons read_members.simps)
qed

lemma SerializeJSONProperty_first:
  "\<exists>s. SerializeJSONProperty (object_of t) = 0x7B # s \<and> 5 \<le> length s"
  by (simp add: SerializeJSONProperty_object_of QuoteJSONString_def)

lemma read_elements_join:
  assumes "ts \<noteq> []" "\<forall>t \<in> set ts. plain_decimal (id' t)" "length ts + 6 \<le> n"
  shows "read_elements n (join (map SerializeJSONProperty (map object_of ts)) @ 0x5D # rest)
         = Some (map object_of ts, rest)"
  using assms
proof (induction ts arbitrary: n)
  case Nil
  then show ?case by simp
next
  case (Cons t ts)
  then obtain m where n: "n = Suc m" and m: "length ts + 6 \<le> m" by (cases n) simp_all
  then obtain k where k: "m = k + 6" using le_Suc_ex[of 6 m] by (auto simp add: add.commute)
  from Cons.prems(2) have t: "plain_decimal (id' t)" by simp
  show ?case
  proof (cases ts)
    case Nil
    have "read_value m (SerializeJSONProperty (object_of t) @ 0x5D # rest)
        = Some (object_of t, 0x5D # rest)"
      unfolding k by (rule read_value_object_of[OF t])
    then show ?thesis using Nil by (simp add: n)
  next
    case (Cons u us)
    let ?tail = "join (map SerializeJSONProperty (map object_of ts)) @ 0x5D # rest"
    have ih: "read_elements m ?tail = Some (map object_of ts, rest)"
      using Cons.IH[of m] Cons.prems(2) m Cons by simp
    have "read_value m (SerializeJSONProperty (object_of t) @ 0x2C # ?tail)
        = Some (object_of t, 0x2C # ?tail)"
      unfolding k by (rule read_value_object_of[OF t])
    moreover have "join (map SerializeJSONProperty (map object_of (t # ts))) @ 0x5D # rest
        = SerializeJSONProperty (object_of t) @ 0x2C # ?tail"
      using Cons by (simp add: js_def)
    ultimately show ?thesis
      using ih by (simp add: n del: join.simps)
  qed
qed

lemma length_join:
  "length xs \<le> length (join (map SerializeJSONProperty (map object_of xs)))"
proof (induction xs rule: induct_list012)
  case 1
  show ?case by simp
next
  case (2 x)
  obtain s where "SerializeJSONProperty (object_of x) = 0x7B # s"
    using SerializeJSONProperty_first by blast
  then show ?case by simp
next
  case (3 x y zs)
  obtain s where "SerializeJSONProperty (object_of x) = 0x7B # s"
    using SerializeJSONProperty_first by blast
  then show ?case using 3 by simp
qed

lemma length_join_first:
  "5 \<le> length (join (map SerializeJSONProperty (map object_of (t # ts))))"
proof -
  obtain s where "SerializeJSONProperty (object_of t) = 0x7B # s" "5 \<le> length s"
    using SerializeJSONProperty_first by blast
  then show ?thesis by (cases ts) simp_all
qed

lemma read_value_array_of:
  assumes "\<forall>t \<in> set ts. plain_decimal (id' t)"
    and "length ts + 6 \<le> n"
  shows "read_value (Suc n) (SerializeJSONProperty (array_of ts)) = Some (array_of ts, [])"
proof (cases "ts = []")
  case True
  then show ?thesis
    by (simp add: array_of_def expect_def js_def)
next
  case False
  define body where "body = join (map SerializeJSONProperty (map object_of ts)) @ [0x5D]"
  have whole: "SerializeJSONProperty (array_of ts) = 0x5B # body"
    by (simp add: array_of_def body_def js_def)
  obtain t us where ts: "ts = t # us" using False by (cases ts) simp_all
  obtain s where "SerializeJSONProperty (object_of t) = 0x7B # s"
    using SerializeJSONProperty_first by blast
  then have "\<exists>s'. body = 0x7B # s'" by (cases us) (simp_all add: body_def ts)
  then have close: "expect (js '']'') body = None" by (auto simp add: expect_def js_def)
  from read_elements_join[OF False assms, of "[]"]
  have "read_elements n body = Some (map object_of ts, [])" by (simp add: body_def)
  then show ?thesis
    unfolding whole by (simp add: close array_of_def)
qed

lemma read_value_empty_array:
  "read_value (Suc n) (js ''['' @ js '']'') = Some (JArray [], [])"
  by (simp add: expect_def js_def)

theorem reference_roundtrip:
  assumes "\<forall>t \<in> set ts. plain_decimal (id' t)"
  shows "reference_parse (SerializeJSONProperty (array_of ts)) = Inr (array_of ts)"
proof (cases ts)
  case Nil
  then show ?thesis
    by (simp add: reference_parse_def array_of_def read_value_empty_array
        del: read_value.simps)
next
  case (Cons t us)
  define written where "written = SerializeJSONProperty (array_of ts)"
  have "length ts \<le> length written"
    using length_join[of ts] by (simp add: written_def array_of_def js_def)
  moreover have "6 \<le> length written"
    using length_join_first[of t us] by (simp add: written_def array_of_def js_def Cons)
  ultimately have "length ts + 6 \<le> 2 * length written" by simp
  from read_value_array_of[OF assms this]
  show ?thesis by (simp add: reference_parse_def written_def del: read_value.simps)
qed

text \<open>
  The bound on the depth of the calls rejects no text: a reader that returns consumes
  input, and returns the same with every bound of at least twice what it consumed.
\<close>

lemma expect_length: "expect p s = Some r \<Longrightarrow> length s = length p + length r"
proof -
  assume "expect p s = Some r"
  then have p: "take (length p) s = p" and r: "r = drop (length p) s"
    by (auto simp add: expect_def split: if_splits)
  have "length (take (length p) s) = min (length s) (length p)" by (rule length_take)
  then have "length p = min (length s) (length p)" by (simp only: p)
  then have "length p \<le> length s" by simp
  then show ?thesis by (simp add: r)
qed

lemma read_units_step:
  assumes "read_units (c # cs) = Some (x, r)"
  shows "r = cs \<or> (\<exists>y rest. read_units rest = Some (y, r) \<and> length rest \<le> length cs)"
proof (cases "c = 0x22")
  case True
  with assms show ?thesis by simp
next
  case quote: False
  show ?thesis
  proof (cases "c = 0x5C")
    case False
    with quote assms have "\<exists>y. read_units cs = Some (y, r)" by (auto split: if_splits)
    then show ?thesis by auto
  next
    case True
    with quote assms obtain e es where cs: "cs = e # es" by (cases cs) auto
    show ?thesis
    proof (cases "e = 0x75")
      case False
      with True quote cs assms have "\<exists>y. read_units es = Some (y, r)"
        by (auto split: option.splits)
      then obtain y where "read_units es = Some (y, r)" ..
      moreover have "length es \<le> length cs" by (simp add: cs)
      ultimately show ?thesis by blast
    next
      case u: True
      with True quote cs assms obtain h1 h2 h3 h4 rest where
        es: "es = h1 # h2 # h3 # h4 # rest"
        by (auto split: list.splits)
      with u True quote cs assms have "\<exists>y. read_units rest = Some (y, r)"
        by (auto split: option.splits)
      then obtain y where "read_units rest = Some (y, r)" ..
      moreover have "length rest \<le> length cs" by (simp add: cs es)
      ultimately show ?thesis by blast
    qed
  qed
qed

lemma read_units_shorter: "read_units cs = Some (x, r) \<Longrightarrow> length r < length cs"
proof (induction "length cs" arbitrary: cs x r rule: less_induct)
  case less
  from less.prems obtain c cs' where cs: "cs = c # cs'" by (cases cs) simp_all
  from read_units_step[OF less.prems[unfolded cs]]
  show ?case
  proof
    assume "r = cs'"
    then show ?thesis by (simp add: cs)
  next
    assume "\<exists>y rest. read_units rest = Some (y, r) \<and> length rest \<le> length cs'"
    then obtain y rest where rest: "read_units rest = Some (y, r)" "length rest \<le> length cs'"
      by blast
    then have "length rest < length cs" by (simp add: cs)
    from less.hyps[OF this rest(1)] rest(2) show ?thesis by (simp add: cs)
  qed
qed

lemma read_string_shorter: "read_string s = Some (x, r) \<Longrightarrow> length r < length s"
proof -
  assume a: "read_string s = Some (x, r)"
  then obtain cs where s: "s = 0x22 # cs" and "read_units cs = Some (x, r)"
    by (auto simp add: read_string_def split: list.splits if_splits)
  then show ?thesis using read_units_shorter[of cs x r] by simp
qed

lemma read_unsigned_shorter: "read_unsigned s = Some (x, r) \<Longrightarrow> length r < length s"
proof -
  assume a: "read_unsigned s = Some (x, r)"
  define ip where "ip = takeWhile isDigit s"
  define s1 where "s1 = dropWhile isDigit s"
  have s: "s = ip @ s1" by (simp add: ip_def s1_def)
  from a have ip: "ip \<noteq> []"
    by (auto simp add: read_unsigned_def Let_def ip_def split: if_splits)
  then have s1: "length s1 < length s" by (simp add: s)
  from a ip have "r = s1 \<or> (\<exists>c r0. s1 = c # r0 \<and> r = dropWhile isDigit r0)"
    by (auto simp add: read_unsigned_def Let_def ip_def[symmetric] s1_def[symmetric]
        split: if_splits list.splits)
  then show ?thesis
  proof
    assume "r = s1"
    then show ?thesis using s1 by simp
  next
    assume "\<exists>c r0. s1 = c # r0 \<and> r = dropWhile isDigit r0"
    then obtain c r0 where "s1 = c # r0" "r = dropWhile isDigit r0" by blast
    then have "length r \<le> length s1" using length_dropWhile_le[of isDigit r0] by simp
    then show ?thesis using s1 by simp
  qed
qed

lemma read_number_shorter: "read_number s = Some (x, r) \<Longrightarrow> length r < length s"
proof -
  assume a: "read_number s = Some (x, r)"
  then obtain c cs where s: "s = c # cs" by (cases s) (simp_all add: read_number_def)
  show ?thesis
  proof (cases "c = 0x2D")
    case True
    with a s obtain y where "read_unsigned cs = Some (y, r)"
      by (auto simp add: read_number_def)
    from read_unsigned_shorter[OF this] show ?thesis by (simp add: s)
  next
    case False
    with a s have "read_unsigned s = Some (x, r)" by (simp add: read_number_def)
    then show ?thesis by (rule read_unsigned_shorter)
  qed
qed

lemma read_boolean_shorter: "read_boolean s = Some (x, r) \<Longrightarrow> length r < length s"
proof -
  assume "read_boolean s = Some (x, r)"
  then have "expect (js ''true'') s = Some r \<or> expect (js ''false'') s = Some r"
    by (auto simp add: read_boolean_def split: option.splits)
  then show ?thesis using expect_length[of _ s r] by (auto simp add: js_def)
qed

lemma read_value_fuel_step:
  assumes E: "\<And>s vs r. read_elements n s = Some (vs, r) \<Longrightarrow>
      length r < length s \<and>
      (\<forall>m. 2 * (length s - length r) \<le> m + 2 \<longrightarrow> read_elements m s = Some (vs, r))"
    and M: "\<And>s ps r. read_members n s = Some (ps, r) \<Longrightarrow>
      length r < length s \<and>
      (\<forall>m. 2 * (length s - length r) \<le> m + 2 \<longrightarrow> read_members m s = Some (ps, r))"
    and a: "read_value (Suc n) s = Some (v, r)"
  shows "length r < length s \<and>
    (\<forall>m. 2 * (length s - length r) \<le> Suc m \<longrightarrow> read_value m s = Some (v, r))"
proof -
  from a obtain c rest where s: "s = c # rest" by (cases s) simp_all
  have leaf: ?thesis
    if shorter: "length r < length s"
      and same: "\<And>k. read_value (Suc k) s = read_value (Suc n) s"
  proof (intro conjI allI impI)
    show "length r < length s" by (rule shorter)
  next
    fix m assume "2 * (length s - length r) \<le> Suc m"
    with shorter obtain k where "m = Suc k" by (cases m) auto
    then show "read_value m s = Some (v, r)" using same[of k] a by simp
  qed
  consider (string) "c = 0x22"
    | (array) "c \<noteq> 0x22" "c = 0x5B"
    | (object) "c \<noteq> 0x22" "c \<noteq> 0x5B" "c = 0x7B"
    | (number) "c \<noteq> 0x22" "c \<noteq> 0x5B" "c \<noteq> 0x7B" "c = 0x2D \<or> isDigit c"
    | (word) "c \<noteq> 0x22" "c \<noteq> 0x5B" "c \<noteq> 0x7B" "\<not> (c = 0x2D \<or> isDigit c)"
    by blast
  then show ?thesis
  proof cases
    case string
    with a s obtain x where "read_string s = Some (x, r)" by auto
    then have "length r < length s" by (rule read_string_shorter)
    moreover have "read_value (Suc k) s = read_value (Suc n) s" for k
      using string by (simp add: s)
    ultimately show ?thesis by (rule leaf)
  next
    case number
    with a s obtain x where "read_number s = Some (x, r)" by auto
    then have "length r < length s" by (rule read_number_shorter)
    moreover have "read_value (Suc k) s = read_value (Suc n) s" for k
      using number by (simp add: s)
    ultimately show ?thesis by (rule leaf)
  next
    case word
    with a s have "expect (js ''null'') s = Some r \<or> (\<exists>x. read_boolean s = Some (x, r))"
      by (auto split: option.splits)
    then have "length r < length s"
      using expect_length[of "js ''null''" s r] read_boolean_shorter[of s _ r]
      by (auto simp add: js_def)
    moreover have "read_value (Suc k) s = read_value (Suc n) s" for k
      using word by (simp add: s)
    ultimately show ?thesis by (rule leaf)
  next
    case array
    show ?thesis
    proof (cases "expect (js '']'') rest")
      case (Some r')
      with array a s have "r = r'" by simp
      with Some have "length r < length s" using expect_length[of "js '']''" rest r']
        by (simp add: s)
      moreover have "read_value (Suc k) s = read_value (Suc n) s" for k
        using array Some by (simp add: s)
      ultimately show ?thesis by (rule leaf)
    next
      case None
      with array a s obtain vs where vs: "read_elements n rest = Some (vs, r)" "v = JArray vs"
        by auto
      from E[OF vs(1)] have shorter: "length r < length rest"
        and enough: "\<And>m. 2 * (length rest - length r) \<le> m + 2 \<Longrightarrow>
          read_elements m rest = Some (vs, r)"
        by simp_all
      show ?thesis
      proof (intro conjI allI impI)
        show "length r < length s" using shorter by (simp add: s)
      next
        fix m assume m: "2 * (length s - length r) \<le> Suc m"
        with shorter obtain k where k: "m = Suc k" by (cases m) (auto simp add: s)
        have "2 * (length rest - length r) \<le> k + 2"
          using m shorter by (simp add: s k)
        from enough[OF this] show "read_value m s = Some (v, r)"
          using array None vs(2) by (simp add: s k)
      qed
    qed
  next
    case object
    show ?thesis
    proof (cases "expect (js ''}'') rest")
      case (Some r')
      with object a s have "r = r'" by simp
      with Some have "length r < length s" using expect_length[of "js ''}''" rest r']
        by (simp add: s)
      moreover have "read_value (Suc k) s = read_value (Suc n) s" for k
        using object Some by (simp add: s)
      ultimately show ?thesis by (rule leaf)
    next
      case None
      with object a s obtain ps where ps: "read_members n rest = Some (ps, r)"
        "v = JObject (foldl (\<lambda>qs p. define_property qs (fst p) (snd p)) [] ps)"
        by auto
      from M[OF ps(1)] have shorter: "length r < length rest"
        and enough: "\<And>m. 2 * (length rest - length r) \<le> m + 2 \<Longrightarrow>
          read_members m rest = Some (ps, r)"
        by simp_all
      show ?thesis
      proof (intro conjI allI impI)
        show "length r < length s" using shorter by (simp add: s)
      next
        fix m assume m: "2 * (length s - length r) \<le> Suc m"
        with shorter obtain k where k: "m = Suc k" by (cases m) (auto simp add: s)
        have "2 * (length rest - length r) \<le> k + 2"
          using m shorter by (simp add: s k)
        from enough[OF this] show "read_value m s = Some (v, r)"
          using object None ps(2) by (simp add: s k)
      qed
    qed
  qed
qed

lemma read_elements_fuel_step:
  assumes V: "\<And>s v r. read_value n s = Some (v, r) \<Longrightarrow>
      length r < length s \<and>
      (\<forall>m. 2 * (length s - length r) \<le> Suc m \<longrightarrow> read_value m s = Some (v, r))"
    and E: "\<And>s vs r. read_elements n s = Some (vs, r) \<Longrightarrow>
      length r < length s \<and>
      (\<forall>m. 2 * (length s - length r) \<le> m + 2 \<longrightarrow> read_elements m s = Some (vs, r))"
    and a: "read_elements (Suc n) s = Some (vs, r)"
  shows "length r < length s \<and>
    (\<forall>m. 2 * (length s - length r) \<le> m + 2 \<longrightarrow> read_elements m s = Some (vs, r))"
proof -
  from a obtain v c r' where v: "read_value n s = Some (v, c # r')"
    by (auto split: option.splits list.splits)
  from V[OF v] have shorter: "Suc (length r') < length s"
    and enough: "\<And>m. 2 * (length s - Suc (length r')) \<le> Suc m \<Longrightarrow>
      read_value m s = Some (v, c # r')"
    by simp_all
  show ?thesis
  proof (cases "c = 0x5D")
    case True
    with a v have r: "r = r'" and vs: "vs = [v]" by simp_all
    show ?thesis
    proof (intro conjI allI impI)
      show "length r < length s" using shorter by (simp add: r)
    next
      fix m assume m: "2 * (length s - length r) \<le> m + 2"
      with shorter obtain k where k: "m = Suc k" by (cases m) (auto simp add: r)
      have "2 * (length s - Suc (length r')) \<le> Suc k"
        using m shorter by (simp add: r k)
      from enough[OF this] show "read_elements m s = Some (vs, r)"
        using True by (simp add: k r vs)
    qed
  next
    case False
    with a v have comma: "c = 0x2C" by (auto split: if_splits)
    with a v False obtain vs' where vs': "read_elements n r' = Some (vs', r)" "vs = v # vs'"
      by auto
    from E[OF vs'(1)] have shorter': "length r < length r'"
      and enough': "\<And>m. 2 * (length r' - length r) \<le> m + 2 \<Longrightarrow>
        read_elements m r' = Some (vs', r)"
      by simp_all
    show ?thesis
    proof (intro conjI allI impI)
      show "length r < length s" using shorter shorter' by simp
    next
      fix m assume m: "2 * (length s - length r) \<le> m + 2"
      with shorter shorter' obtain k where k: "m = Suc k" by (cases m) auto
      have "2 * (length s - Suc (length r')) \<le> Suc k"
        using m shorter shorter' by (simp add: k)
      from enough[OF this] have 1: "read_value k s = Some (v, c # r')" .
      have "2 * (length r' - length r) \<le> k + 2"
        using m shorter shorter' by (simp add: k)
      from enough'[OF this] have 2: "read_elements k r' = Some (vs', r)" .
      show "read_elements m s = Some (vs, r)"
        using False comma by (simp add: k 1 2 vs'(2))
    qed
  qed
qed

lemma read_members_fuel_step:
  assumes V: "\<And>s v r. read_value n s = Some (v, r) \<Longrightarrow>
      length r < length s \<and>
      (\<forall>m. 2 * (length s - length r) \<le> Suc m \<longrightarrow> read_value m s = Some (v, r))"
    and M: "\<And>s ps r. read_members n s = Some (ps, r) \<Longrightarrow>
      length r < length s \<and>
      (\<forall>m. 2 * (length s - length r) \<le> m + 2 \<longrightarrow> read_members m s = Some (ps, r))"
    and a: "read_members (Suc n) s = Some (ps, r)"
  shows "length r < length s \<and>
    (\<forall>m. 2 * (length s - length r) \<le> m + 2 \<longrightarrow> read_members m s = Some (ps, r))"
proof -
  from a obtain key r0 r1 v c r' where key: "read_string s = Some (key, r0)"
    and colon: "expect (js '':'') r0 = Some r1"
    and v: "read_value n r1 = Some (v, c # r')"
    by (auto split: option.splits list.splits)
  have r0: "length r0 < length s" using key by (rule read_string_shorter)
  have r1: "length r0 = Suc (length r1)" using expect_length[OF colon] by (simp add: js_def)
  from V[OF v] have shorter: "Suc (length r') < length r1"
    and enough: "\<And>m. 2 * (length r1 - Suc (length r')) \<le> Suc m \<Longrightarrow>
      read_value m r1 = Some (v, c # r')"
    by simp_all
  show ?thesis
  proof (cases "c = 0x7D")
    case True
    with a key colon v have r: "r = r'" and ps: "ps = [(key, v)]" by simp_all
    show ?thesis
    proof (intro conjI allI impI)
      show "length r < length s" using shorter r0 r1 by (simp add: r)
    next
      fix m assume m: "2 * (length s - length r) \<le> m + 2"
      with shorter r0 r1 obtain k where k: "m = Suc k" by (cases m) (auto simp add: r)
      have "2 * (length r1 - Suc (length r')) \<le> Suc k"
        using m shorter r0 r1 by (simp add: r k)
      from enough[OF this] show "read_members m s = Some (ps, r)"
        using True by (simp add: k r ps key colon)
    qed
  next
    case False
    with a key colon v have comma: "c = 0x2C" by (auto split: if_splits)
    with a key colon v False obtain ps' where
      ps': "read_members n r' = Some (ps', r)" "ps = (key, v) # ps'"
      by auto
    from M[OF ps'(1)] have shorter': "length r < length r'"
      and enough': "\<And>m. 2 * (length r' - length r) \<le> m + 2 \<Longrightarrow>
        read_members m r' = Some (ps', r)"
      by simp_all
    show ?thesis
    proof (intro conjI allI impI)
      show "length r < length s" using shorter shorter' r0 r1 by simp
    next
      fix m assume m: "2 * (length s - length r) \<le> m + 2"
      with shorter shorter' r0 r1 obtain k where k: "m = Suc k" by (cases m) auto
      have "2 * (length r1 - Suc (length r')) \<le> Suc k"
        using m shorter shorter' r0 r1 by (simp add: k)
      from enough[OF this] have 1: "read_value k r1 = Some (v, c # r')" .
      have "2 * (length r' - length r) \<le> k + 2"
        using m shorter shorter' r0 r1 by (simp add: k)
      from enough'[OF this] have 2: "read_members k r' = Some (ps', r)" .
      show "read_members m s = Some (ps, r)"
        using False comma by (simp add: k 1 2 ps'(2) key colon)
    qed
  qed
qed

lemma read_fuel:
  "(\<forall>s v r. read_value n s = Some (v, r) \<longrightarrow>
      length r < length s \<and>
      (\<forall>m. 2 * (length s - length r) \<le> Suc m \<longrightarrow> read_value m s = Some (v, r))) \<and>
   (\<forall>s vs r. read_elements n s = Some (vs, r) \<longrightarrow>
      length r < length s \<and>
      (\<forall>m. 2 * (length s - length r) \<le> m + 2 \<longrightarrow> read_elements m s = Some (vs, r))) \<and>
   (\<forall>s ps r. read_members n s = Some (ps, r) \<longrightarrow>
      length r < length s \<and>
      (\<forall>m. 2 * (length s - length r) \<le> m + 2 \<longrightarrow> read_members m s = Some (ps, r)))"
proof (induction n)
  case 0
  show ?case by simp
next
  case (Suc n)
  then have V: "\<And>s v r. read_value n s = Some (v, r) \<Longrightarrow>
      length r < length s \<and>
      (\<forall>m. 2 * (length s - length r) \<le> Suc m \<longrightarrow> read_value m s = Some (v, r))"
    and E: "\<And>s vs r. read_elements n s = Some (vs, r) \<Longrightarrow>
      length r < length s \<and>
      (\<forall>m. 2 * (length s - length r) \<le> m + 2 \<longrightarrow> read_elements m s = Some (vs, r))"
    and M: "\<And>s ps r. read_members n s = Some (ps, r) \<Longrightarrow>
      length r < length s \<and>
      (\<forall>m. 2 * (length s - length r) \<le> m + 2 \<longrightarrow> read_members m s = Some (ps, r))"
    by blast+
  show ?case
  proof (intro conjI allI impI)
    fix s v r assume "read_value (Suc n) s = Some (v, r)"
    from read_value_fuel_step[OF E M this]
    show "length r < length s"
      and "\<And>m. 2 * (length s - length r) \<le> Suc m \<Longrightarrow> read_value m s = Some (v, r)"
      by simp_all
  next
    fix s vs r assume "read_elements (Suc n) s = Some (vs, r)"
    from read_elements_fuel_step[OF V E this]
    show "length r < length s"
      and "\<And>m. 2 * (length s - length r) \<le> m + 2 \<Longrightarrow> read_elements m s = Some (vs, r)"
      by simp_all
  next
    fix s ps r assume "read_members (Suc n) s = Some (ps, r)"
    from read_members_fuel_step[OF V M this]
    show "length r < length s"
      and "\<And>m. 2 * (length s - length r) \<le> m + 2 \<Longrightarrow> read_members m s = Some (ps, r)"
      by simp_all
  qed
qed

theorem reference_parse_fuel:
  "reference_parse s = Inr v \<longleftrightarrow> (\<exists>n. read_value n s = Some (v, []))"
proof
  assume "reference_parse s = Inr v"
  then have "read_value (Suc (2 * length s)) s = Some (v, [])"
    by (auto simp add: reference_parse_def simp del: read_value.simps
        split: option.splits list.splits)
  then show "\<exists>n. read_value n s = Some (v, [])" ..
next
  assume "\<exists>n. read_value n s = Some (v, [])"
  then obtain n where n: "read_value n s = Some (v, [])" ..
  from read_fuel[of n] n
  have "\<forall>m. 2 * (length s - length ([] :: jsstring)) \<le> Suc m \<longrightarrow> read_value m s = Some (v, [])"
    by blast
  then have "2 * (length s - length ([] :: jsstring)) \<le> Suc (Suc (2 * length s)) \<longrightarrow>
      read_value (Suc (2 * length s)) s = Some (v, [])" ..
  then have "read_value (Suc (2 * length s)) s = Some (v, [])"
    by (simp del: read_value.simps)
  then show "reference_parse s = Inr v"
    by (simp add: reference_parse_def del: read_value.simps)
qed

text \<open>
  Every double is a plain decimal: it is an integer multiple of a power of two not below
  \<open>2 ^ - 1074\<close>. So is every id that \<^verbatim>\<open>addTodo\<close> computes.
\<close>

lemma floor_fixed_iff: "of_int \<lfloor>y\<rfloor> = y \<longleftrightarrow> y \<in> \<int>" for y :: rat
proof
  assume "of_int \<lfloor>y\<rfloor> = y"
  then show "y \<in> \<int>" by (metis Ints_of_int)
next
  assume "y \<in> \<int>"
  then show "of_int \<lfloor>y\<rfloor> = y" by (auto elim: Ints_cases)
qed

lemma plain_decimal_iff: "plain_decimal x \<longleftrightarrow> \<bar>x\<bar> * 10 ^ 1100 \<in> \<int>"
  unfolding plain_decimal_def by (rule floor_fixed_iff)

lemma half_power_times_ten_power:
  assumes "a \<le> k"
  shows "1 / 2 ^ a * 10 ^ k \<in> (\<int> :: rat set)"
proof -
  have "(10 :: rat) ^ k = (2 * 5) ^ k" by simp
  also have "\<dots> = 2 ^ k * 5 ^ k" by (rule power_mult_distrib)
  also have "(2 :: rat) ^ k = 2 ^ a * 2 ^ (k - a)"
    using assms by (simp add: power_add[symmetric])
  finally have "1 / 2 ^ a * (10 :: rat) ^ k = 2 ^ (k - a) * 5 ^ k" by simp
  moreover have "(2 :: rat) ^ (k - a) * 5 ^ k \<in> \<int>"
    by (intro Ints_mult Ints_power Ints_numeral)
  ultimately show ?thesis by (simp only:)
qed

lemma pow2_times_ten_power:
  assumes "- int k \<le> j"
  shows "pow2 j * 10 ^ k \<in> \<int>"
proof (cases "0 \<le> j")
  case True
  have "(2 :: rat) ^ nat j * 10 ^ k \<in> \<int>"
    by (intro Ints_mult Ints_power Ints_numeral)
  then show ?thesis using True by (simp add: pow2_def)
next
  case False
  then have "nat (- j) \<le> k" using assms by simp
  from half_power_times_ten_power[OF this] show ?thesis
    using False by (simp add: pow2_def)
qed

lemma pow2_positive: "0 < pow2 j"
  by (simp add: pow2_def)

lemma multiple_of_pow2_plain:
  assumes "- 1100 \<le> j"
  shows "plain_decimal (of_int m * pow2 j)"
proof -
  define k :: nat where "k = 1100"
  have "- int k \<le> j" using assms by (simp add: k_def)
  then have p: "pow2 j * 10 ^ k \<in> \<int>" by (rule pow2_times_ten_power)
  have "\<bar>of_int m * pow2 j\<bar> * 10 ^ k = of_int \<bar>m\<bar> * (pow2 j * 10 ^ k)"
    using pow2_positive[of j] by (simp add: abs_mult)
  moreover have "of_int \<bar>m\<bar> * (pow2 j * 10 ^ k) \<in> \<int>"
    by (rule Ints_mult[OF Ints_of_int p])
  ultimately have "\<bar>of_int m * pow2 j\<bar> * 10 ^ k \<in> \<int>" by (simp only:)
  then show ?thesis unfolding plain_decimal_iff k_def .
qed

lemma plain_decimal_0: "plain_decimal 0"
  using multiple_of_pow2_plain[of 0 0] by simp

lemma round_double_plain: "plain_decimal (round_double x)"
proof (cases "x = 0")
  case True
  then show ?thesis by (simp add: round_double_def plain_decimal_0)
next
  case False
  define J where "J = max (binade x) (- 1022) - 52"
  have J: "- 1100 \<le> J" by (simp add: J_def)
  have "\<exists>K. round_double x = of_int K * pow2 J"
    unfolding round_double_def roundTiesToEven_def ulp_def Let_def J_def
    using False by (simp only: if_False) (rule exI, rule refl)
  then obtain K where "round_double x = of_int K * pow2 J" ..
  then show ?thesis by (simp only: multiple_of_pow2_plain[OF J])
qed

lemma newTodo_plain: "plain_decimal (id' (newTodo e txt))"
  by (simp add: newTodo_def Number_add_def round_double_plain)

lemma serialized_nonempty: "SerializeJSONProperty (array_of ts) \<noteq> []"
  by (simp add: array_of_def js_def)

lemma reachable_ids_plain:
  "reachable P s \<Longrightarrow> \<forall>t \<in> set (todos s). plain_decimal (id' t)"
proof (induction rule: reachable.induct)
  case (mount storage s)
  then show ?case by (simp add: App_mount_first)
next
  case (remount s s')
  then have "todos s' = todos s \<or> todos s' = []"
    by (intro App_mount_again) (simp_all add: reachable_saved)
  with remount.IH show ?case by auto
next
  case (submit s inputValue e)
  then show ?case
    by (cases "trim inputValue = []")
      (simp_all add: handleSubmit_blank handleSubmit_adds todos_addTodo newTodo_plain)
next
  case (edit s todo it)
  show ?case
  proof (cases rule: handleEdit_cases[where P = P and todo = todo and it = it and s = s])
    case unchanged
    then show ?thesis using edit.IH by simp
  next
    case changed
    then show ?thesis using edit.IH by (auto simp add: todos_editTodo)
  qed
next
  case (edit_kept s todo s0 t it)
  show ?case
  proof (cases rule: handleEdit_cases[where P = P and todo = todo and it = it and s = s])
    case unchanged
    then show ?thesis using edit_kept.IH(1) by simp
  next
    case changed
    then show ?thesis using edit_kept.IH(1) by (auto simp add: todos_editTodo)
  qed
next
  case (toggle s todo)
  then show ?case by (auto simp add: todos_toggleTodo)
next
  case (delete s i)
  then show ?case by (auto simp add: todos_deleteTodo)
qed

lemma reference_reads_back:
  assumes "\<forall>t \<in> set (todos s). plain_decimal (id' t)"
  shows "load reference_platform (localStorage (saveTodos reference_platform s))
         = Inr (array_of (todos s), [])"
proof (rule load_parsed)
  show "localStorage (saveTodos reference_platform s) (js ''todoApp_todos'')
        = Some (SerializeJSONProperty (array_of (todos s)))"
    by (simp add: localStorage_saveTodos reference_platform_def)
  show "SerializeJSONProperty (array_of (todos s)) \<noteq> []" by (rule serialized_nonempty)
  show "JSON_parse reference_platform (SerializeJSONProperty (array_of (todos s)))
        = Inr (array_of (todos s))"
    using reference_roundtrip[OF assms] by (simp add: reference_platform_def)
qed

lemma reachable_reads_back:
  "reachable reference_platform s \<Longrightarrow>
   load reference_platform (localStorage (saveTodos reference_platform s))
     = Inr (array_of (todos s), [])"
  by (rule reference_reads_back) (rule reachable_ids_plain)

subsection \<open>The sample runs\<close>

lemma trim_blank: "trim (js ''   '') = []"
  by code_simp

lemma trim_milk: "trim (js '' buy milk'') = js ''buy milk''"
  by code_simp

lemma trim_dog: "trim (js ''walk dog'') = js ''walk dog''"
  by code_simp

lemma trim_same: "trim (js ''buy milk  '') = js ''buy milk''"
  by code_simp

lemma trim_cat: "trim (js ''feed cat'') = js ''feed cat''"
  by code_simp

lemma trim_pet: "trim (js ''feed cat, walk dog '') = js ''feed cat, walk dog''"
  by code_simp

lemma milk_nonempty: "js ''buy milk'' \<noteq> []"
  by code_simp

lemma dog_nonempty: "js ''walk dog'' \<noteq> []"
  by code_simp

lemma cat_nonempty: "js ''feed cat'' \<noteq> []"
  by code_simp

lemma pet_differs:
  "js ''feed cat, walk dog'' \<noteq> [] \<and> js ''feed cat, walk dog'' \<noteq> js ''feed cat''"
  by code_simp

lemma cat_differs: "js ''feed cat'' \<noteq> js ''walk dog''" "js ''feed cat'' \<noteq> js ''buy milk''"
  by code_simp+

text \<open>
  The rounding at work on a familiar sum: \<^verbatim>\<open>0.1 + 0.2\<close> is \<^verbatim>\<open>0.30000000000000004\<close>, the
  double above \<^verbatim>\<open>0.3\<close>.
\<close>

lemma tenth_plus_fifth:
  "round_double (1 / 10) = 3602879701896397 / 2 ^ 55 \<and>
   round_double (2 / 10) = 3602879701896397 / 2 ^ 54 \<and>
   Number_add (round_double (1 / 10)) (round_double (2 / 10)) = 1351079888211149 / 2 ^ 52 \<and>
   round_double (3 / 10) = 5404319552844595 / 2 ^ 54"
  by code_simp

lemma id_env1: "Number_add (of_int (Date_now env1)) (Math_random env1) = 6920000000001 / 4"
  by code_simp

lemma id_env2: "Number_add (of_int (Date_now env2)) (Math_random env2) = 6920000000001 / 4"
  by code_simp

lemma id_env3: "Number_add (of_int (Date_now env3)) (Math_random env3) = 3460000000003 / 2"
  by code_simp

lemma random_differs: "Math_random env1 \<noteq> Math_random env2"
  by code_simp

lemma id_milk: "id' milk = 6920000000001 / 4"
  by (simp add: milk_def newTodo_def id_env1)

lemma id_dog: "id' dog = 6920000000001 / 4"
  by (simp add: dog_def newTodo_def id_env2)

lemma id_cat: "id' cat = 3460000000003 / 2"
  by (simp add: cat_def newTodo_def id_env3)

lemma text_milk: "text' milk = js ''buy milk''"
  by (simp add: milk_def newTodo_def)

lemma text_dog: "text' dog = js ''walk dog''"
  by (simp add: dog_def newTodo_def)

lemma text_cat: "text' cat = js ''feed cat''"
  by (simp add: cat_def newTodo_def)

lemma completed_milk: "\<not> completed milk"
  by (simp add: milk_def newTodo_def)

lemma todos_first_run: "todos first_run = []"
  by (simp add: first_run_def saveTodos_def)

lemma mount_first_run: "App_mount reference_platform Map.empty = Inr (Mounted first_run)"
  by (simp add: App_mount_absent first_run_def)

lemma reachable_first_run: "reachable reference_platform first_run"
  by (rule reachable.mount[where storage = Map.empty]) (simp_all add: mount_first_run)

lemma length_inputs:
  "length (js '' buy milk'') \<le> 100" "length (js ''walk dog'') \<le> 100"
  "length (js ''feed cat'') \<le> 100"
  by (simp_all add: js_def)

lemma shopping_step:
  "shopping = snd (handleSubmit reference_platform env1 (js '' buy milk'', first_run))"
  by (simp add: shopping_def submits_def)

lemma rapid_step:
  "rapid = snd (handleSubmit reference_platform env2 (js ''walk dog'', shopping))"
  by (simp add: rapid_def shopping_def submits_def)

lemma chores_step:
  "chores = snd (handleSubmit reference_platform env3 (js ''feed cat'', shopping))"
  by (simp add: chores_def shopping_def submits_def)

lemma reachable_shopping: "reachable reference_platform shopping"
  unfolding shopping_step by (rule reachable.submit[OF reachable_first_run length_inputs(1)])

lemma reachable_rapid: "reachable reference_platform rapid"
  unfolding rapid_step by (rule reachable.submit[OF reachable_shopping length_inputs(2)])

lemma reachable_chores: "reachable reference_platform chores"
  unfolding chores_step by (rule reachable.submit[OF reachable_shopping length_inputs(3)])

lemma todos_shopping: "todos shopping = [milk]"
  by (simp add: shopping_step handleSubmit_adds trim_milk milk_nonempty todos_addTodo
      todos_first_run milk_def)

lemma todos_rapid: "todos rapid = [dog, milk]"
  by (simp add: rapid_step handleSubmit_adds trim_dog dog_nonempty todos_addTodo
      todos_shopping dog_def)

lemma todos_chores: "todos chores = [cat, milk]"
  by (simp add: chores_step handleSubmit_adds trim_cat cat_nonempty todos_addTodo
      todos_shopping cat_def)

lemma ids_chores: "distinct (map id' (todos chores))"
  by (simp add: todos_chores id_cat id_milk)

lemma absent_id: "(5 :: rat) \<notin> id' ` set (todos shopping)"
  by (simp add: todos_shopping id_milk)

lemma roundtrip_rapid:
  "reference_parse (SerializeJSONProperty (array_of [dog, milk])) = Inr (array_of [dog, milk])"
  by code_simp

lemma plain_samples: "plain_decimal (id' dog)" "plain_decimal (id' milk)"
  by (simp_all add: dog_def milk_def newTodo_plain)

lemma parse_not_json: "reference_parse (js ''not json'') = Inl SyntaxError"
  by code_simp

lemma not_json_nonempty: "js ''not json'' \<noteq> []"
  by code_simp

lemma parse_empty: "reference_parse [] = Inl SyntaxError"
  by code_simp

lemma parse_null: "reference_parse (js ''null'') = Inr JNull"
  by code_simp

lemma null_nonempty: "js ''null'' \<noteq> []"
  by code_simp

lemma stored_rapid:
  "localStorage rapid (js ''todoApp_todos'') = Some (SerializeJSONProperty (array_of [dog, milk]))"
  using reachable_saved[OF reachable_rapid] by (simp add: todos_rapid reference_platform_def)

text \<open>
  Stored texts that parse to no collection of task records: on an object, a number or an
  array with an entry \<^verbatim>\<open>null\<close> the body of \<^verbatim>\<open>App\<close> throws and mounting raises; an array
  of other entries is held as it is.
\<close>

lemma stored_values:
  "load reference_platform [js ''todoApp_todos'' \<mapsto> js ''{}''] = Inl TypeError"
  "load reference_platform [js ''todoApp_todos'' \<mapsto> js ''5''] = Inl TypeError"
  "load reference_platform [js ''todoApp_todos'' \<mapsto> js ''[null]''] = Inl TypeError"
  "load reference_platform [js ''todoApp_todos'' \<mapsto> js ''[1]''] = Inr (JArray [JNumber 1], [])"
  "load reference_platform [js ''todoApp_todos'' \<mapsto> js ''[]''] = Inr (JArray [], [])"
  by code_simp+

section \<open>The claims\<close>

text \<open>
  \<^bold>\<open>C1\<close>: no two records of a reachable collection share an id, also under rapid
  successive creation. The code does not keep this. \<^verbatim>\<open>addTodo\<close> computes the id as
  \<^verbatim>\<open>Date.now() + Math.random()\<close>; around the time value \<open>1730000000000\<close> the doubles are
  \<open>2 ^ - 12\<close> apart, so the sum keeps twelve fractional bits of the random draw. Two
  submissions in the same millisecond whose draws are \<open>1 / 4\<close> and \<open>1 / 4 + 2 ^ - 20\<close>
  reach a collection of two records with the one id \<open>1730000000000.25\<close>, and toggling
  by that id flips both records. Two submissions with the same clock reading and the same
  draw share their id whatever the rounding.
\<close>

theorem C1_rapid_adds_share_id:
  "reachable reference_platform rapid \<and>
   Date_now env1 = Date_now env2 \<and> Math_random env1 \<noteq> Math_random env2 \<and>
   map id' (todos rapid) = [6920000000001 / 4, 6920000000001 / 4] \<and>
   \<not> distinct (map id' (todos rapid)) \<and>
   map completed (todos rapid) = [False, False] \<and>
   map completed (todos (toggleTodo reference_platform (id' dog) rapid)) = [True, True] \<and>
   map id' (todos (submits reference_platform
                     [(env1, js '' buy milk''), (env1, js ''walk dog'')] first_run))
     = [6920000000001 / 4, 6920000000001 / 4]"
proof (intro conjI)
  show "reachable reference_platform rapid" by (rule reachable_rapid)
  show "Date_now env1 = Date_now env2" by (simp add: env1_def env2_def)
  show "Math_random env1 \<noteq> Math_random env2" by (rule random_differs)
  show ids: "map id' (todos rapid) = [6920000000001 / 4, 6920000000001 / 4]"
    by (simp add: todos_rapid id_milk id_dog)
  show "\<not> distinct (map id' (todos rapid))" by (simp add: ids)
  show "map completed (todos rapid) = [False, False]"
    by (simp add: todos_rapid milk_def dog_def newTodo_def)
  show "map completed (todos (toggleTodo reference_platform (id' dog) rapid)) = [True, True]"
    by (simp add: todos_toggleTodo todos_rapid id_milk id_dog)
      (simp add: milk_def dog_def newTodo_def)
  show "map id' (todos (submits reference_platform
                     [(env1, js '' buy milk''), (env1, js ''walk dog'')] first_run))
     = [6920000000001 / 4, 6920000000001 / 4]"
    by (simp add: submits_def handleSubmit_adds trim_milk trim_dog milk_nonempty dog_nonempty
        todos_addTodo todos_first_run newTodo_def id_env1)
qed

text \<open>
  \<^bold>\<open>C2\<close>: for every collection and every input whose trimmed form is empty, adding is a
  no-op. Adding is \<^verbatim>\<open>AddTodo.handleSubmit\<close>, which trims and guards before it calls
  \<^verbatim>\<open>addTodo\<close>: the state of the application, its collection and its store stay as they
  were, and nothing is written.
\<close>

theorem C2_blank_add_is_noop:
  assumes "trim inputValue = []"
  shows "handleSubmit P e (inputValue, s) = (inputValue, s) \<and>
         todos (snd (handleSubmit P e (inputValue, s))) = todos s \<and>
         localStorage (snd (handleSubmit P e (inputValue, s))) = localStorage s \<and>
         setItem_calls (snd (handleSubmit P e (inputValue, s))) = setItem_calls s"
proof -
  have "handleSubmit P e (inputValue, s) = (inputValue, s)"
    using assms by (simp add: handleSubmit_def)
  then show ?thesis by simp
qed

theorem C2_blank_add_is_noop_witness:
  "trim (js ''   '') = [] \<and>
   handleSubmit reference_platform env1 (js ''   '', shopping) = (js ''   '', shopping) \<and>
   todos (snd (handleSubmit reference_platform env1 (js ''   '', shopping))) = [milk]"
  using C2_blank_add_is_noop[OF trim_blank, of reference_platform env1 shopping]
  by (simp add: trim_blank todos_shopping)

text \<open>
  \<^bold>\<open>C3\<close>: for every collection, every record and every new text whose trimmed form is
  empty or equal to the record's current text, editing changes nothing: the collection is
  unchanged and no persistence write is triggered. Editing is \<^verbatim>\<open>TodoItem.handleEdit\<close>,
  which trims and guards before it calls \<^verbatim>\<open>editTodo\<close>.
\<close>

theorem C3_edit_blank_or_same_is_noop:
  assumes "trim (editValue it) = [] \<or> trim (editValue it) = text' todo"
  shows "snd (handleEdit P todo (it, s)) = s \<and>
         todos (snd (handleEdit P todo (it, s))) = todos s \<and>
         localStorage (snd (handleEdit P todo (it, s))) = localStorage s \<and>
         setItem_calls (snd (handleEdit P todo (it, s))) = setItem_calls s"
proof -
  have "snd (handleEdit P todo (it, s)) = s"
  proof (cases "isEditing it")
    case True
    with assms show ?thesis by (auto simp add: handleEdit_def Let_def)
  next
    case False
    then show ?thesis by (simp add: handleEdit_def)
  qed
  then show ?thesis by simp
qed

theorem C3_edit_blank_or_same_is_noop_witness:
  "trim (editValue \<lparr>isEditing = True, editValue = js ''buy milk  ''\<rparr>) = text' milk \<and>
   snd (handleEdit reference_platform milk
          (\<lparr>isEditing = True, editValue = js ''buy milk  ''\<rparr>, shopping)) = shopping \<and>
   trim (editValue \<lparr>isEditing = True, editValue = js ''   ''\<rparr>) = [] \<and>
   snd (handleEdit reference_platform milk
          (\<lparr>isEditing = True, editValue = js ''   ''\<rparr>, shopping)) = shopping"
proof -
  have same: "trim (editValue \<lparr>isEditing = True, editValue = js ''buy milk  ''\<rparr>) = text' milk"
    by (simp add: trim_same text_milk)
  have blank: "trim (editValue \<lparr>isEditing = True, editValue = js ''   ''\<rparr>) = []"
    by (simp add: trim_blank)
  show ?thesis
    using C3_edit_blank_or_same_is_noop[of "\<lparr>isEditing = True, editValue = js ''buy milk  ''\<rparr>"
        milk reference_platform shopping]
      C3_edit_blank_or_same_is_noop[of "\<lparr>isEditing = True, editValue = js ''   ''\<rparr>"
        milk reference_platform shopping]
      same blank
    by simp
qed

text \<open>
  \<^bold>\<open>C4\<close>: in every reachable collection, the text of every record is non-empty, trimmed
  and at most 100 code units long; adding and editing preserve this. The bound comes from
  the \<^verbatim>\<open>maxLength\<close> of the two input elements, which \<open>reachable\<close> asks of a typed
  value; the guards of \<^verbatim>\<open>handleSubmit\<close> and \<^verbatim>\<open>handleEdit\<close> give the rest.
\<close>

theorem C4_texts_trimmed_nonempty_bounded:
  "reachable P s \<Longrightarrow>
   \<forall>t \<in> set (todos s). text' t \<noteq> [] \<and> trim (text' t) = text' t \<and> length (text' t) \<le> 100"
proof (induction rule: reachable.induct)
  case (mount storage s)
  then show ?case by (simp add: App_mount_first)
next
  case (remount s s')
  then have "todos s' = todos s \<or> todos s' = []"
    by (intro App_mount_again) (simp_all add: reachable_saved)
  with remount.IH show ?case by auto
next
  case (submit s inputValue e)
  show ?case
  proof (cases "trim inputValue = []")
    case True
    then show ?thesis using submit.IH by (simp add: handleSubmit_blank)
  next
    case False
    have "length (trim inputValue) \<le> 100"
      using length_trim[of inputValue] submit.hyps(2) by simp
    then show ?thesis
      using False submit.IH
      by (simp add: handleSubmit_adds todos_addTodo newTodo_def trim_idem)
  qed
next
  case (edit s todo it)
  show ?case
  proof (cases rule: handleEdit_cases[where P = P and todo = todo and it = it and s = s])
    case unchanged
    then show ?thesis using edit.IH by simp
  next
    case changed
    have "length (trim (editValue it)) \<le> 100"
      using length_trim[of "editValue it"] edit.hyps(3) by simp
    then show ?thesis
      using changed edit.IH by (auto simp add: todos_editTodo trim_idem)
  qed
next
  case (edit_kept s todo s0 t it)
  show ?case
  proof (cases rule: handleEdit_cases[where P = P and todo = todo and it = it and s = s])
    case unchanged
    then show ?thesis using edit_kept.IH(1) by simp
  next
    case changed
    have "trim (editValue it) = text' t" "length (text' t) \<le> 100" "trim (text' t) = text' t"
      using edit_kept.IH(2) edit_kept.hyps(4,5) by simp_all
    then show ?thesis
      using changed edit_kept.IH(1) by (auto simp add: todos_editTodo trim_idem)
  qed
next
  case (toggle s todo)
  then show ?case by (auto simp add: todos_toggleTodo)
next
  case (delete s i)
  then show ?case by (auto simp add: todos_deleteTodo)
qed

theorem C4_texts_trimmed_nonempty_bounded_witness:
  "reachable reference_platform shopping \<and> milk \<in> set (todos shopping) \<and>
   text' milk \<noteq> [] \<and> trim (text' milk) = text' milk \<and> length (text' milk) \<le> 100"
  using C4_texts_trimmed_nonempty_bounded[OF reachable_shopping]
  by (simp add: reachable_shopping todos_shopping)

text \<open>
  \<^bold>\<open>C5\<close>: after a sequence of \<open>n\<close> additions whose trimmed texts are non-empty, the
  collection has exactly \<open>n\<close> more records; the new ones are not completed and stand in
  front of the old ones, newest first.
\<close>

theorem C5_adds_prepend:
  assumes "\<forall>(e, v) \<in> set xs. trim v \<noteq> []"
  shows "todos (submits P xs s) = rev (map (\<lambda>(e, v). newTodo e (trim v)) xs) @ todos s \<and>
         length (todos (submits P xs s)) = length (todos s) + length xs \<and>
         (\<forall>k < length xs. \<not> completed (todos (submits P xs s) ! k)) \<and>
         drop (length xs) (todos (submits P xs s)) = todos s"
proof -
  let ?new = "rev (map (\<lambda>(e, v). newTodo e (trim v)) xs)"
  have eq: "todos (submits P xs s) = ?new @ todos s"
    using assms
  proof (induction xs arbitrary: s)
    case Nil
    then show ?case by (simp add: submits_def)
  next
    case (Cons x xs)
    obtain e v where x: "x = (e, v)" by (cases x)
    from Cons.prems x have v: "trim v \<noteq> []" and rest: "\<forall>(e, v) \<in> set xs. trim v \<noteq> []"
      by auto
    have "submits P (x # xs) s = submits P xs (addTodo P e (trim v) s)"
      using v by (simp add: submits_def x handleSubmit_adds)
    then show ?case
      using Cons.IH[OF rest, of "addTodo P e (trim v) s"] by (simp add: x todos_addTodo)
  qed
  have len: "length ?new = length xs" by simp
  have fresh: "\<not> completed t" if "t \<in> set ?new" for t
    using that by (auto simp add: newTodo_def)
  have "\<not> completed (todos (submits P xs s) ! k)" if "k < length xs" for k
  proof -
    have "todos (submits P xs s) ! k = ?new ! k"
      using that len by (simp add: eq nth_append)
    moreover have "?new ! k \<in> set ?new"
      using that len by (intro nth_mem) simp
    ultimately show ?thesis using fresh by simp
  qed
  then show ?thesis using len by (simp add: eq)
qed

theorem C5_adds_prepend_witness:
  "trim (js '' buy milk'') \<noteq> [] \<and> trim (js ''walk dog'') \<noteq> [] \<and>
   todos rapid = [dog, milk] \<and> text' dog = js ''walk dog'' \<and> text' milk = js ''buy milk'' \<and>
   length (todos rapid) = 2 \<and> \<not> completed (todos rapid ! 0) \<and> \<not> completed (todos rapid ! 1)"
proof -
  have inputs: "\<forall>(e, v) \<in> set [(env1, js '' buy milk''), (env2, js ''walk dog'')]. trim v \<noteq> []"
    by (simp add: trim_milk trim_dog milk_nonempty dog_nonempty)
  show ?thesis
    using C5_adds_prepend[OF inputs, of reference_platform first_run]
    by (simp add: rapid_def todos_first_run trim_milk trim_dog milk_nonempty dog_nonempty
        milk_def dog_def newTodo_def)
qed

text \<open>
  \<^bold>\<open>C6\<close>, as the code has it: on a stored value that is absent, empty, unparsable or the
  text of a collection of task records, loading does not raise. With nothing stored under
  the key, or with the empty string stored, it yields the empty collection and reports
  nothing; with a non-empty stored text that fails to parse, the failure is caught and
  reported and the empty collection is yielded; with a stored text that parses to a
  collection of task records, that collection is yielded and nothing is reported.
\<close>

theorem C6_load_recovers:
  "(storage (js ''todoApp_todos'') = None \<longrightarrow> load P storage = Inr (JArray [], [])) \<and>
   (storage (js ''todoApp_todos'') = Some [] \<longrightarrow> load P storage = Inr (JArray [], [])) \<and>
   (\<forall>saved e. storage (js ''todoApp_todos'') = Some saved \<and> saved \<noteq> [] \<and>
        JSON_parse P saved = Inl e \<longrightarrow>
      load P storage = Inr (JArray [], [(js ''Error loading todos from localStorage:'', e)])) \<and>
   (\<forall>saved ts. storage (js ''todoApp_todos'') = Some saved \<and> saved \<noteq> [] \<and>
        JSON_parse P saved = Inr (array_of ts) \<longrightarrow>
      load P storage = Inr (array_of ts, []))"
proof (intro conjI allI impI)
  assume "storage (js ''todoApp_todos'') = None"
  then show "load P storage = Inr (JArray [], [])" by (simp add: load_absent)
next
  assume "storage (js ''todoApp_todos'') = Some []"
  then show "load P storage = Inr (JArray [], [])" by (simp add: load_absent)
next
  fix saved e
  assume "storage (js ''todoApp_todos'') = Some saved \<and> saved \<noteq> [] \<and> JSON_parse P saved = Inl e"
  then show "load P storage
      = Inr (JArray [], [(js ''Error loading todos from localStorage:'', e)])"
    by (simp add: load_unparsable)
next
  fix saved ts
  assume "storage (js ''todoApp_todos'') = Some saved \<and> saved \<noteq> [] \<and>
    JSON_parse P saved = Inr (array_of ts)"
  then show "load P storage = Inr (array_of ts, [])"
    by (simp add: load_parsed)
qed

theorem C6_load_recovers_witness:
  "load reference_platform Map.empty = Inr (JArray [], []) \<and>
   load reference_platform [js ''todoApp_todos'' \<mapsto> []] = Inr (JArray [], []) \<and>
   JSON_parse reference_platform (js ''not json'') = Inl SyntaxError \<and>
   load reference_platform [js ''todoApp_todos'' \<mapsto> js ''not json''] =
     Inr (JArray [], [(js ''Error loading todos from localStorage:'', SyntaxError)]) \<and>
   localStorage rapid (js ''todoApp_todos'')
     = Some (SerializeJSONProperty (array_of [dog, milk])) \<and>
   JSON_parse reference_platform (SerializeJSONProperty (array_of [dog, milk]))
     = Inr (array_of [dog, milk]) \<and>
   load reference_platform (localStorage rapid) = Inr (array_of [dog, milk], [])"
  using C6_load_recovers[of Map.empty reference_platform]
    C6_load_recovers[of "[js ''todoApp_todos'' \<mapsto> []]" reference_platform]
    C6_load_recovers[of "[js ''todoApp_todos'' \<mapsto> js ''not json'']" reference_platform]
    C6_load_recovers[of "localStorage rapid" reference_platform]
    not_json_nonempty serialized_nonempty[of "[dog, milk]"]
  by (simp add: reference_platform_def parse_not_json stored_rapid roundtrip_rapid)

text \<open>
  \<^bold>\<open>C6\<close> as it was stated fails at two stored values. At \<^verbatim>\<open>""\<close> the value is present
  and \<^verbatim>\<open>JSON.parse\<close> throws on it, but the guard \<^verbatim>\<open>if (savedTodos)\<close> skips it before any
  parse, so no failure is caught and nothing is reported. At \<^verbatim>\<open>null\<close> the text parses, the
  loading effect hands the value to \<^verbatim>\<open>setTodos\<close> unchecked, and the next render of \<^verbatim>\<open>App\<close>
  throws a \<^verbatim>\<open>TypeError\<close> at \<^verbatim>\<open>todos.length\<close> that nothing catches.
\<close>

theorem C6_empty_unreported_null_raises:
  "[js ''todoApp_todos'' \<mapsto> []] (js ''todoApp_todos'') = Some [] \<and>
   JSON_parse reference_platform [] = Inl SyntaxError \<and>
   load reference_platform [js ''todoApp_todos'' \<mapsto> []] = Inr (JArray [], []) \<and>
   JSON_parse reference_platform (js ''null'') = Inr JNull \<and>
   load reference_platform [js ''todoApp_todos'' \<mapsto> js ''null''] = Inl TypeError"
proof -
  have "App_body JNull = Inl TypeError" by (simp add: App_body_def)
  moreover have "JSON_parse reference_platform (js ''null'') = Inr JNull"
    by (simp add: reference_platform_def parse_null)
  ultimately have "load reference_platform [js ''todoApp_todos'' \<mapsto> js ''null''] = Inl TypeError"
    using null_nonempty by (intro load_raises[where saved = "js ''null''" and v = JNull]) simp_all
  then show ?thesis
    by (simp add: load_absent reference_platform_def parse_empty parse_null)
qed

text \<open>
  \<^bold>\<open>C7\<close>: saving a collection and then loading yields that collection, for every
  well-formed collection. For any platform, a collection is well-formed when
  \<^verbatim>\<open>JSON.stringify\<close> writes it as a text that \<^verbatim>\<open>JSON.parse\<close> reads back; the application
  adds nothing that could break the round trip: it writes and reads under the same key, the
  guard of the loading effect lets every non-empty text through, and the body of \<^verbatim>\<open>App\<close>
  accepts the array of every collection. At the reference platform, a collection is
  well-formed when its ids are plain decimals, which the ids of every reachable collection
  are. What is loaded is the array of the collection, which determines the collection
  (\<open>array_of_inject\<close>).
\<close>

theorem C7_save_then_load:
  "(JSON_stringify P (array_of (todos s)) \<noteq> [] \<and>
    JSON_parse P (JSON_stringify P (array_of (todos s))) = Inr (array_of (todos s)) \<longrightarrow>
      load P (localStorage (saveTodos P s)) = Inr (array_of (todos s), [])) \<and>
   ((\<forall>t \<in> set (todos s). plain_decimal (id' t)) \<longrightarrow>
      load reference_platform (localStorage (saveTodos reference_platform s))
        = Inr (array_of (todos s), []))"
proof (intro conjI impI)
  assume "JSON_stringify P (array_of (todos s)) \<noteq> [] \<and>
    JSON_parse P (JSON_stringify P (array_of (todos s))) = Inr (array_of (todos s))"
  then have "JSON_stringify P (array_of (todos s)) \<noteq> []"
    and "JSON_parse P (JSON_stringify P (array_of (todos s))) = Inr (array_of (todos s))"
    by simp_all
  then show "load P (localStorage (saveTodos P s)) = Inr (array_of (todos s), [])"
    by (intro load_parsed) (simp_all add: localStorage_saveTodos)
next
  assume "\<forall>t \<in> set (todos s). plain_decimal (id' t)"
  then show "load reference_platform (localStorage (saveTodos reference_platform s))
        = Inr (array_of (todos s), [])"
    by (rule reference_reads_back)
qed

theorem C7_save_then_load_witness:
  "JSON_stringify reference_platform (array_of (todos rapid)) \<noteq> [] \<and>
   JSON_parse reference_platform (JSON_stringify reference_platform (array_of (todos rapid)))
     = Inr (array_of (todos rapid)) \<and>
   plain_decimal (id' dog) \<and> plain_decimal (id' milk) \<and>
   load reference_platform (localStorage (saveTodos reference_platform rapid))
     = Inr (array_of [dog, milk], [])"
proof -
  have nonempty: "JSON_stringify reference_platform (array_of (todos rapid)) \<noteq> []"
    by (simp add: reference_platform_def serialized_nonempty)
  have reads_back:
    "JSON_parse reference_platform (JSON_stringify reference_platform (array_of (todos rapid)))
       = Inr (array_of (todos rapid))"
    by (simp add: reference_platform_def todos_rapid roundtrip_rapid)
  show ?thesis
    using C7_save_then_load[of reference_platform rapid] nonempty reads_back plain_samples
    by (simp add: todos_rapid)
qed

text \<open>
  \<^bold>\<open>C8\<close>: toggling twice by the same id restores the collection, so every record's
  \<^verbatim>\<open>completed\<close> flag has its original value; a single toggle flips the flag of the records
  with that id and of no other; toggling by an id that is not present leaves the collection
  unchanged.
\<close>

theorem C8_toggle_involution:
  "todos (toggleTodo P i (toggleTodo P i s)) = todos s \<and>
   (\<forall>k < length (todos s).
      completed (todos (toggleTodo P i s) ! k) =
        (if id' (todos s ! k) = i then \<not> completed (todos s ! k) else completed (todos s ! k))) \<and>
   (i \<notin> id' ` set (todos s) \<longrightarrow> todos (toggleTodo P i s) = todos s)"
proof (intro conjI allI impI)
  show "todos (toggleTodo P i (toggleTodo P i s)) = todos s"
    by (simp only: todos_toggleTodo toggle_twice)
next
  fix k assume "k < length (todos s)"
  then show "completed (todos (toggleTodo P i s) ! k) =
        (if id' (todos s ! k) = i then \<not> completed (todos s ! k) else completed (todos s ! k))"
    by (simp add: todos_toggleTodo)
next
  assume "i \<notin> id' ` set (todos s)"
  then show "todos (toggleTodo P i s) = todos s"
    by (simp add: todos_toggleTodo toggle_absent)
qed

theorem C8_toggle_involution_witness:
  "todos (toggleTodo reference_platform (id' milk)
            (toggleTodo reference_platform (id' milk) shopping)) = [milk] \<and>
   completed (todos (toggleTodo reference_platform (id' milk) shopping) ! 0) \<and>
   5 \<notin> id' ` set (todos shopping) \<and>
   todos (toggleTodo reference_platform 5 shopping) = [milk]"
  using C8_toggle_involution[of reference_platform "id' milk" shopping]
    C8_toggle_involution[of reference_platform 5 shopping] absent_id
  by (simp add: todos_shopping completed_milk)

text \<open>
  \<^bold>\<open>C9\<close>, as the code has it: \<^verbatim>\<open>editTodo\<close> replaces the text of every record with the
  given id and nothing else: the \<^verbatim>\<open>id\<close>, \<^verbatim>\<open>completed\<close> and \<^verbatim>\<open>createdAt\<close> of every
  record, the records with another id, the length of the collection and the order of its
  records are unchanged. In a collection whose ids are distinct it replaces the text of
  the one record with the id, and every other record is unchanged. \<^verbatim>\<open>handleEdit\<close> calls it
  with the trimmed value when that is non-empty and differs from the current text.
\<close>

theorem C9_edit_replaces_text_only:
  "length (todos (editTodo P i newText s)) = length (todos s) \<and>
   (\<forall>k < length (todos s).
      id' (todos (editTodo P i newText s) ! k) = id' (todos s ! k) \<and>
      completed (todos (editTodo P i newText s) ! k) = completed (todos s ! k) \<and>
      createdAt (todos (editTodo P i newText s) ! k) = createdAt (todos s ! k) \<and>
      (if id' (todos s ! k) = i
       then text' (todos (editTodo P i newText s) ! k) = newText
       else todos (editTodo P i newText s) ! k = todos s ! k)) \<and>
   (distinct (map id' (todos s)) \<longrightarrow>
      (\<forall>k < length (todos s). id' (todos s ! k) = i \<longrightarrow>
         (\<forall>j < length (todos s). j \<noteq> k \<longrightarrow>
            todos (editTodo P i newText s) ! j = todos s ! j))) \<and>
   (isEditing it \<and> trim (editValue it) \<noteq> [] \<and> trim (editValue it) \<noteq> text' todo \<longrightarrow>
      snd (handleEdit P todo (it, s)) = editTodo P (id' todo) (trim (editValue it)) s)"
proof (intro conjI allI impI)
  show "length (todos (editTodo P i newText s)) = length (todos s)"
    by (simp add: todos_editTodo)
next
  fix k assume k: "k < length (todos s)"
  let ?new = "todos (editTodo P i newText s) ! k"
  have new: "?new = (if id' (todos s ! k) = i then (todos s ! k)\<lparr>text' := newText\<rparr>
                      else todos s ! k)"
    using k by (simp add: todos_editTodo)
  show "id' ?new = id' (todos s ! k)" by (simp add: new)
  show "completed ?new = completed (todos s ! k)" by (simp add: new)
  show "createdAt ?new = createdAt (todos s ! k)" by (simp add: new)
  show "if id' (todos s ! k) = i then text' ?new = newText else ?new = todos s ! k"
    by (simp add: new)
next
  fix k j
  assume "distinct (map id' (todos s))" "k < length (todos s)" "id' (todos s ! k) = i"
    "j < length (todos s)" "j \<noteq> k"
  then have "map (\<lambda>t. if id' t = i then t\<lparr>text' := newText\<rparr> else t) (todos s) ! j
      = todos s ! j"
    by (intro edit_elsewhere[where k = k])
  then show "todos (editTodo P i newText s) ! j = todos s ! j"
    by (simp only: todos_editTodo)
next
  assume "isEditing it \<and> trim (editValue it) \<noteq> [] \<and> trim (editValue it) \<noteq> text' todo"
  then show "snd (handleEdit P todo (it, s)) = editTodo P (id' todo) (trim (editValue it)) s"
    by (simp add: handleEdit_def Let_def)
qed

theorem C9_edit_replaces_text_only_witness:
  "distinct (map id' (todos chores)) \<and> todos chores = [cat, milk] \<and>
   todos (editTodo reference_platform (id' cat) (js ''feed cat, walk dog'') chores)
     = [cat\<lparr>text' := js ''feed cat, walk dog''\<rparr>, milk] \<and>
   snd (handleEdit reference_platform cat
          (\<lparr>isEditing = True, editValue = js ''feed cat, walk dog ''\<rparr>, chores))
     = editTodo reference_platform (id' cat) (js ''feed cat, walk dog'') chores"
proof -
  have edited:
    "todos (editTodo reference_platform (id' cat) (js ''feed cat, walk dog'') chores)
       = [cat\<lparr>text' := js ''feed cat, walk dog''\<rparr>, milk]"
    by (simp add: todos_editTodo todos_chores id_cat id_milk)
  show ?thesis
    using C9_edit_replaces_text_only[of reference_platform "id' cat"
        "js ''feed cat, walk dog''" chores
        "\<lparr>isEditing = True, editValue = js ''feed cat, walk dog ''\<rparr>" cat]
      pet_differs ids_chores
    by (simp add: todos_chores trim_pet text_cat edited)
qed

text \<open>
  \<^bold>\<open>C9\<close> as it was stated fails in the collection of the two rapid submissions, whose
  records share their id: editing the first record rewrites the text of the second one
  too.
\<close>

theorem C9_edit_rewrites_records_sharing_id:
  "reachable reference_platform rapid \<and> todos rapid = [dog, milk] \<and>
   text' dog = js ''walk dog'' \<and> text' milk = js ''buy milk'' \<and>
   trim (js ''feed cat'') = js ''feed cat'' \<and>
   snd (handleEdit reference_platform dog
          (\<lparr>isEditing = True, editValue = js ''feed cat''\<rparr>, rapid))
     = editTodo reference_platform (id' dog) (js ''feed cat'') rapid \<and>
   map text' (todos (editTodo reference_platform (id' dog) (js ''feed cat'') rapid))
     = [js ''feed cat'', js ''feed cat''] \<and>
   todos (editTodo reference_platform (id' dog) (js ''feed cat'') rapid) ! 1 \<noteq> todos rapid ! 1"
proof (intro conjI)
  show "reachable reference_platform rapid" by (rule reachable_rapid)
  show "todos rapid = [dog, milk]" by (rule todos_rapid)
  show "text' dog = js ''walk dog''" by (rule text_dog)
  show "text' milk = js ''buy milk''" by (rule text_milk)
  show "trim (js ''feed cat'') = js ''feed cat''" by (rule trim_cat)
  show "snd (handleEdit reference_platform dog
          (\<lparr>isEditing = True, editValue = js ''feed cat''\<rparr>, rapid))
     = editTodo reference_platform (id' dog) (js ''feed cat'') rapid"
    using cat_nonempty cat_differs(1) by (simp add: handleEdit_changes trim_cat text_dog)
  show texts: "map text' (todos (editTodo reference_platform (id' dog) (js ''feed cat'') rapid))
     = [js ''feed cat'', js ''feed cat'']"
    by (simp add: todos_editTodo todos_rapid id_dog id_milk)
  have "text' (todos (editTodo reference_platform (id' dog) (js ''feed cat'') rapid) ! 1)
      = js ''feed cat''"
    by (simp add: todos_editTodo todos_rapid id_dog id_milk)
  moreover have "text' (todos rapid ! 1) = js ''buy milk''"
    by (simp add: todos_rapid text_milk)
  ultimately show
    "todos (editTodo reference_platform (id' dog) (js ''feed cat'') rapid) ! 1 \<noteq> todos rapid ! 1"
    using cat_differs(2) by auto
qed

text \<open>
  \<^bold>\<open>C10\<close>: the statistics are consistent: the total is the length of the collection
  and the sum of the completed and the pending count; the completed count is the length
  of the list filtered with \<^verbatim>\<open>'completed'\<close>, and the pending count, computed by
  subtraction, is the length of the list filtered with \<^verbatim>\<open>'pending'\<close>.
\<close>

theorem C10_stats_consistent:
  "totalTodos s = int (length (todos s)) \<and>
   totalTodos s = completedTodos s + pendingTodos s \<and>
   completedTodos s = int (length (filteredTodos (js ''completed'') (todos s))) \<and>
   pendingTodos s = int (length (filteredTodos (js ''pending'') (todos s))) \<and>
   filteredTodos (js ''all'') (todos s) = todos s"
proof -
  have "length (filter (\<lambda>t. completed t) (todos s)) + length (filter (\<lambda>t. \<not> completed t) (todos s))
        = length (todos s)"
    by (rule sum_length_filter_compl)
  moreover have "js ''all'' \<noteq> js ''completed''" "js ''all'' \<noteq> js ''pending''"
    by code_simp+
  ultimately show ?thesis
    by (simp add: totalTodos_def completedTodos_def pendingTodos_def filteredTodos_completed
        filteredTodos_pending) (simp add: filteredTodos_def)
qed

end
